theory Spec2Isabelle
  imports Main "HOL-Library.Word"
begin

unbundle bit_operations_syntax

section \<open>Machine types and the byte store\<close>

text \<open>
  The codec of \<^verbatim>\<open>byte_pd_amortized.h\<close> works on raw bytes reached through
  \<^verbatim>\<open>uchar*\<close> pointers.  A pointer is an address (a natural number) into one
  byte store; \<^verbatim>\<open>uintE\<close> and \<^verbatim>\<open>intE\<close> are 32-bit words (\<^verbatim>\<open>intE\<close> in two's
  complement), and \<^verbatim>\<open>uintT\<close> is taken to be the 32-bit default as well.  A
  \<^verbatim>\<open>uintE\<close> stored through a cast pointer occupies four bytes, least significant
  byte first.
\<close>

type_synonym uchar = "8 word"
type_synonym uintE = "32 word"
type_synonym intE = "32 word"
type_synonym mem = "nat \<Rightarrow> uchar"

text \<open>Modelled from the spec: the macro \<^verbatim>\<open>PARALLEL_DEGREE\<close> of \<^verbatim>\<open>bridge.h\<close>
  (not among the sources); the spec fixes the block size \<open>P = 1000\<close>.\<close>
definition PARALLEL_DEGREE :: nat where
  "PARALLEL_DEGREE = 1000"

text \<open>Modelled from the spec: the macro \<^verbatim>\<open>EDGE_SIZE_PER_BYTE\<close> of \<^verbatim>\<open>bridge.h\<close>;
  the spec gives seven payload bits per byte.\<close>
definition EDGE_SIZE_PER_BYTE :: nat where
  "EDGE_SIZE_PER_BYTE = 7"

text \<open>Modelled from the spec: the macro \<^verbatim>\<open>LAST_BIT_SET\<close> of \<^verbatim>\<open>bridge.h\<close>;
  the continuation bit is the top bit of a byte.\<close>
definition LAST_BIT_SET :: "uchar \<Rightarrow> bool" where
  "LAST_BIT_SET b = (b AND 0x80 \<noteq> 0)"

definition read32 :: "mem \<Rightarrow> nat \<Rightarrow> uintE" where
  "read32 m a = ucast (m a) OR push_bit 8 (ucast (m (a + 1)))
                OR push_bit 16 (ucast (m (a + 2))) OR push_bit 24 (ucast (m (a + 3)))"

definition write32 :: "mem \<Rightarrow> nat \<Rightarrow> uintE \<Rightarrow> mem" where
  "write32 m a v = m(a := ucast v, a + 1 := ucast (drop_bit 8 v),
                     a + 2 := ucast (drop_bit 16 v), a + 3 := ucast (drop_bit 24 v))"

section \<open>Reading and writing single edges\<close>

text \<open>
  The continuation loop shared by \<^verbatim>\<open>eatWeight\<close> and \<^verbatim>\<open>eatFirstEdge\<close>
  (\<^verbatim>\<open>while (1) { b = *start; edgeRead |= (b & 0x7f) << shiftAmount; start++; ... }\<close>).
  A shift of a 32-bit integer by 32 or more has no defined value in C++; the model
  returns \<open>None\<close> there, which also makes the loop total.
\<close>

function eat_cont :: "mem \<Rightarrow> nat \<Rightarrow> nat \<Rightarrow> uintE \<Rightarrow> (uintE \<times> nat) option" where
  "eat_cont m start shiftAmount edgeRead =
     (if 32 \<le> shiftAmount then None
      else let b = m start;
               edgeRead' = edgeRead OR push_bit shiftAmount (ucast (b AND 0x7f));
               start' = start + 1
           in if LAST_BIT_SET b
              then eat_cont m start' (shiftAmount + EDGE_SIZE_PER_BYTE) edgeRead'
              else Some (edgeRead', start'))"
  by pat_completeness auto
termination
  by (relation "measure (\<lambda>(m, s, sh, e). 39 - sh)") (auto simp: EDGE_SIZE_PER_BYTE_def)

declare eat_cont.simps [simp del]

text \<open>\<^verbatim>\<open>eatWeight\<close> for \<^verbatim>\<open>W = intE\<close>; the result is the new value and the advanced pointer.\<close>

definition eatWeight_intE :: "mem \<Rightarrow> nat \<Rightarrow> (intE \<times> nat) option" where
  "eatWeight_intE m start =
     (let fb = m start;
          start1 = start + 1;
          edgeRead0 = ucast (fb AND 0x3f)
      in case (if LAST_BIT_SET fb then eat_cont m start1 6 edgeRead0
               else Some (edgeRead0, start1)) of
           None \<Rightarrow> None
         | Some (edgeRead, start') \<Rightarrow>
             Some (if fb AND 0x40 \<noteq> 0 then - edgeRead else edgeRead, start'))"

text \<open>\<^verbatim>\<open>eatWeight\<close> for any other weight type: reads nothing.\<close>

definition eatWeight_empty :: "mem \<Rightarrow> nat \<Rightarrow> (unit \<times> nat) option" where
  "eatWeight_empty m start = Some ((), start)"

definition eatFirstEdge :: "mem \<Rightarrow> nat \<Rightarrow> uintE \<Rightarrow> (uintE \<times> nat) option" where
  "eatFirstEdge m start source =
     (let fb = m start;
          start1 = start + 1;
          edgeRead0 = ucast (fb AND 0x3f)
      in case (if LAST_BIT_SET fb then eat_cont m start1 6 edgeRead0
               else Some (edgeRead0, start1)) of
           None \<Rightarrow> None
         | Some (edgeRead, start') \<Rightarrow>
             Some (if fb AND 0x40 \<noteq> 0 then source - edgeRead else source + edgeRead, start'))"

function eatEdge_loop :: "mem \<Rightarrow> nat \<Rightarrow> nat \<Rightarrow> uintE \<Rightarrow> (uintE \<times> nat) option" where
  "eatEdge_loop m start shiftAmount edgeRead =
     (if 32 \<le> shiftAmount then None
      else let b = m start;
               edgeRead' = edgeRead + push_bit shiftAmount (ucast (b AND 0x7f));
               start' = start + 1
           in if LAST_BIT_SET b
              then eatEdge_loop m start' (shiftAmount + EDGE_SIZE_PER_BYTE) edgeRead'
              else Some (edgeRead', start'))"
  by pat_completeness auto
termination
  by (relation "measure (\<lambda>(m, s, sh, e). 39 - sh)") (auto simp: EDGE_SIZE_PER_BYTE_def)

declare eatEdge_loop.simps [simp del]

definition eatEdge :: "mem \<Rightarrow> nat \<Rightarrow> (uintE \<times> nat) option" where
  "eatEdge m start = eatEdge_loop m start 0 0"

text \<open>
  The write loop shared by \<^verbatim>\<open>compressFirstEdge\<close> and \<^verbatim>\<open>compressEdge\<close>
  (\<^verbatim>\<open>while ((curByte > 0) || (toCompress > 0)) { ... start[offset] = toWrite; offset++; }\<close>).
\<close>

function compress_rest :: "mem \<Rightarrow> nat \<Rightarrow> nat \<Rightarrow> uchar \<Rightarrow> uintE \<Rightarrow> mem \<times> nat" where
  "compress_rest m start offset curByte toCompress =
     (if curByte > 0 \<or> toCompress > 0 then
        let toWrite = curByte;
            toCompress' = drop_bit 7 toCompress;
            curByte' = ucast (toCompress' AND 0x7f);
            toWrite' = (if toCompress' > 0 then toWrite OR 0x80 else toWrite)
        in compress_rest (m(start + offset := toWrite')) start (offset + 1) curByte' toCompress'
      else (m, offset))"
  by pat_completeness auto
termination
proof (relation "measure (\<lambda>(m, st, off, cb, tc). 2 * unat tc + (if cb > 0 then 1 else 0))", goal_cases)
  case 1
  show ?case by simp
next
  case (2 m start offset curByte toCompress x xa xb xc)
  show ?case
  proof (cases "toCompress = 0")
    case True
    with 2 show ?thesis by (simp add: word_greater_zero_iff)
  next
    case False
    then have "0 < unat toCompress" by (simp add: unat_gt_0)
    then have "unat toCompress div 128 < unat toCompress" by simp
    moreover have "unat xa = unat toCompress div 128"
      using 2 unat_drop_bit_eq [of 7 toCompress] by (simp add: drop_bit_eq_div)
    ultimately have "unat xa < unat toCompress" by simp
    then show ?thesis by simp
  qed
qed

declare compress_rest.simps [simp del]

text \<open>\<^verbatim>\<open>compressFirstEdge(start, offset, source, target)\<close>; the \<^verbatim>\<open>long\<close> arguments are
  integers, \<^verbatim>\<open>toCompress\<close> is their absolute difference truncated to \<^verbatim>\<open>uintE\<close>.\<close>

definition compressFirstEdge :: "mem \<Rightarrow> nat \<Rightarrow> nat \<Rightarrow> int \<Rightarrow> int \<Rightarrow> mem \<times> nat" where
  "compressFirstEdge m start offset source target =
     (let diff = target - source;
          preCompress = diff;
          toCompress0 = (word_of_int \<bar>preCompress\<bar> :: uintE);
          firstByte0 = (ucast (toCompress0 AND 0x3f) :: uchar);
          firstByte1 = (if preCompress < 0 then firstByte0 OR 0x40 else firstByte0);
          toCompress = drop_bit 6 toCompress0;
          firstByte = (if toCompress > 0 then firstByte1 OR 0x80 else firstByte1);
          m' = m(start + offset := firstByte);
          curByte = (ucast (toCompress AND 0x7f) :: uchar)
      in compress_rest m' start (offset + 1) curByte toCompress)"

definition compressWeight_empty :: "mem \<Rightarrow> nat \<Rightarrow> nat \<Rightarrow> unit \<Rightarrow> mem \<times> nat" where
  "compressWeight_empty m start offset weight = (m, offset)"

definition compressWeight_intE :: "mem \<Rightarrow> nat \<Rightarrow> nat \<Rightarrow> intE \<Rightarrow> mem \<times> nat" where
  "compressWeight_intE m start offset weight = compressFirstEdge m start offset 0 (sint weight)"

definition compressEdge :: "mem \<Rightarrow> nat \<Rightarrow> nat \<Rightarrow> uintE \<Rightarrow> mem \<times> nat" where
  "compressEdge m start curOffset e = compress_rest m start curOffset (ucast (e AND 0x7f)) e"

text \<open>
  The template parameter \<^verbatim>\<open>W\<close> selects one of the two overloads of \<^verbatim>\<open>eatWeight\<close>
  and of \<^verbatim>\<open>compressWeight\<close>; a function generic in \<^verbatim>\<open>W\<close> receives the selected
  pair as a record.
\<close>

record 'w weight_ops =
  eatWeight :: "mem \<Rightarrow> nat \<Rightarrow> ('w \<times> nat) option"
  compressWeight :: "mem \<Rightarrow> nat \<Rightarrow> nat \<Rightarrow> 'w \<Rightarrow> mem \<times> nat"

definition W_empty :: "unit weight_ops" where
  "W_empty = \<lparr>eatWeight = eatWeight_empty, compressWeight = compressWeight_empty\<rparr>"

definition W_intE :: "intE weight_ops" where
  "W_intE = \<lparr>eatWeight = eatWeight_intE, compressWeight = compressWeight_intE\<rparr>"

section \<open>Encoding a neighbour list\<close>

text \<open>
  The iterator argument \<^verbatim>\<open>it\<close> of \<^verbatim>\<open>sequentialCompressEdgeSet\<close> is a list whose head
  is the current edge: \<^verbatim>\<open>cur()\<close> returns the head, \<^verbatim>\<open>next()\<close> advances and returns the
  new head.  Advancing past the last edge has no value (\<open>None\<close>).
\<close>

definition it_cur :: "'a list \<Rightarrow> ('a \<times> 'a list) option" where
  "it_cur it = (case it of [] \<Rightarrow> None | x # r \<Rightarrow> Some (x, it))"

definition it_next :: "'a list \<Rightarrow> ('a \<times> 'a list) option" where
  "it_next it = (case tl it of [] \<Rightarrow> None | x # r \<Rightarrow> Some (x, x # r))"

text \<open>The inner loop \<^verbatim>\<open>for (edgeI = 1; edgeI < end; edgeI++)\<close> of
  \<^verbatim>\<open>sequentialCompressEdgeSet\<close>.  The read-back of each written edge only feeds a
  diagnostic printed to standard output and is left out.\<close>

function sCES_edges ::
  "'w weight_ops \<Rightarrow> mem \<Rightarrow> nat \<Rightarrow> nat \<Rightarrow> (uintE \<times> 'w) list \<Rightarrow> uintE \<Rightarrow> nat \<Rightarrow> nat
   \<Rightarrow> (mem \<times> nat \<times> (uintE \<times> 'w) list) option" where
  "sCES_edges W m edgeArray current_offset it last_ngh edgeI end =
     (if edgeI < end then
        (case it_next it of
           None \<Rightarrow> None
         | Some (nxt, it') \<Rightarrow>
             let difference = fst nxt - last_ngh;
                 (m1, off1) = compressEdge m edgeArray current_offset difference;
                 (m2, off2) = compressWeight W m1 edgeArray off1 (snd nxt)
             in sCES_edges W m2 edgeArray off2 it' (fst nxt) (edgeI + 1) end)
      else Some (m, current_offset, it))"
  by pat_completeness auto
termination
  by (relation "measure (\<lambda>(W, m, ea, off, it, l, edgeI, end). end - edgeI)") auto

declare sCES_edges.simps [simp del]

text \<open>The loop over blocks, \<^verbatim>\<open>for (i = 0; i < num_blocks; i++)\<close>.\<close>

function sCES_blocks ::
  "'w weight_ops \<Rightarrow> mem \<Rightarrow> nat \<Rightarrow> nat \<Rightarrow> (uintE \<times> 'w) list \<Rightarrow> nat \<Rightarrow> uintE \<Rightarrow> nat \<Rightarrow> nat \<Rightarrow> nat
   \<Rightarrow> (mem \<times> nat) option" where
  "sCES_blocks W m edgeArray current_offset it degree source start_offset num_blocks i =
     (if i < num_blocks then
        let ofs = i * PARALLEL_DEGREE;
            end = min PARALLEL_DEGREE (degree - ofs);
            m1 = (if i > 0
                  then write32 m (edgeArray + 4 + 4 * (i - 1)) (of_nat (current_offset - start_offset))
                  else m);
            m2 = write32 m1 (edgeArray + current_offset) (of_nat ofs);
            off1 = current_offset + 4
        in (case (if i = 0 then it_cur it else it_next it) of
              None \<Rightarrow> None
            | Some (lst, it1) \<Rightarrow>
                let last_ngh = fst lst;
                    (m3, off2) = compressFirstEdge m2 edgeArray off1 (uint source) (uint last_ngh);
                    (m4, off3) = compressWeight W m3 edgeArray off2 (snd lst)
                in (case sCES_edges W m4 edgeArray off3 it1 last_ngh 1 end of
                      None \<Rightarrow> None
                    | Some (m5, off4, it2) \<Rightarrow>
                        sCES_blocks W m5 edgeArray off4 it2 degree source start_offset
                          num_blocks (i + 1)))
      else Some (m, current_offset))"
  by pat_completeness auto
termination
  by (relation "measure (\<lambda>(W, m, ea, off, it, d, s, so, nb, i). nb - i)") auto

declare sCES_blocks.simps [simp del]

definition sequentialCompressEdgeSet ::
  "'w weight_ops \<Rightarrow> mem \<Rightarrow> nat \<Rightarrow> nat \<Rightarrow> nat \<Rightarrow> uintE \<Rightarrow> (uintE \<times> 'w) list
   \<Rightarrow> (mem \<times> nat) option" where
  "sequentialCompressEdgeSet W m edgeArray current_offset degree source it =
     (if degree > 0 then
        let start_offset = current_offset;
            num_blocks = 1 + (degree - 1) div PARALLEL_DEGREE;
            m1 = write32 m edgeArray (of_nat degree);
            current_offset1 = current_offset + (4 + (num_blocks - 1) * 4)
        in sCES_blocks W m1 edgeArray current_offset1 it degree source start_offset num_blocks 0
      else Some (m, current_offset))"

section \<open>Decoding\<close>

text \<open>
  The callback \<^verbatim>\<open>t(source, ngh, wgh, edgeID)\<close> may have effects of its own; it is a
  function from its state and arguments to its boolean result and new state.  A
  decoder returns the callback's final state, or \<open>None\<close> when a read has no value.

  \<open>decode_rest\<close> is the loop \<^verbatim>\<open>for (edgeID = start_offset + 1; edgeID < end_offset; edgeID++)\<close>
  over the later edges of a block; its boolean result tells whether the callback
  accepted every edge.  With \<open>W_empty\<close> the weight read is the no-op of the
  unweighted decoder, whose weight is the constant \<^verbatim>\<open>pbbs::empty()\<close>.
\<close>

type_synonym ('w, 's) callback = "'s \<Rightarrow> uintE \<Rightarrow> uintE \<Rightarrow> 'w \<Rightarrow> nat \<Rightarrow> bool \<times> 's"

function decode_rest ::
  "'w weight_ops \<Rightarrow> ('w, 's) callback \<Rightarrow> mem \<Rightarrow> uintE \<Rightarrow> nat \<Rightarrow> uintE \<Rightarrow> nat \<Rightarrow> nat \<Rightarrow> 's
   \<Rightarrow> (bool \<times> 's) option" where
  "decode_rest W t m source finger ngh edgeID end_offset s =
     (if edgeID < end_offset then
        (case eatEdge m finger of
           None \<Rightarrow> None
         | Some (d, finger1) \<Rightarrow>
             (case eatWeight W m finger1 of
                None \<Rightarrow> None
              | Some (wgh, finger2) \<Rightarrow>
                  let ngh' = ngh + d;
                      (continue, s') = t s source ngh' wgh edgeID
                  in if continue
                     then decode_rest W t m source finger2 ngh' (edgeID + 1) end_offset s'
                     else Some (False, s')))
      else Some (True, s))"
  by pat_completeness auto
termination
  by (relation "measure (\<lambda>(W, t, m, src, f, ngh, edgeID, end, s). end - edgeID)") auto

declare decode_rest.simps [simp del]

text \<open>One block, from the pointer just behind its start index: the first edge, then the rest.\<close>

definition decode_one_block ::
  "'w weight_ops \<Rightarrow> ('w, 's) callback \<Rightarrow> mem \<Rightarrow> uintE \<Rightarrow> nat \<Rightarrow> uintE \<Rightarrow> uintE \<Rightarrow> 's
   \<Rightarrow> (bool \<times> 's) option" where
  "decode_one_block W t m source finger start_offset end_offset s =
     (if start_offset < end_offset then
        (case eatFirstEdge m finger source of
           None \<Rightarrow> None
         | Some (ngh, finger1) \<Rightarrow>
             (case eatWeight W m finger1 of
                None \<Rightarrow> None
              | Some (wgh, finger2) \<Rightarrow>
                  let (continue, s') = t s source ngh wgh (unat start_offset)
                  in if continue
                     then decode_rest W t m source finger2 ngh (unat start_offset + 1)
                            (unat end_offset) s'
                     else Some (False, s')))
      else Some (True, s))"

definition block_offsets :: "mem \<Rightarrow> nat \<Rightarrow> nat \<Rightarrow> uintE" where
  "block_offsets m edge_start i = read32 m (edge_start + 4 + 4 * i)"

definition num_blocks_of :: "uintE \<Rightarrow> nat" where
  "num_blocks_of virtual_degree = 1 + unat (virtual_degree - 1) div PARALLEL_DEGREE"

definition block_finger :: "mem \<Rightarrow> nat \<Rightarrow> nat \<Rightarrow> nat \<Rightarrow> nat" where
  "block_finger m edge_start num_blocks i =
     (if i > 0 then edge_start + unat (block_offsets m edge_start (i - 1))
      else edge_start + (num_blocks - 1) * 4 + 4)"

definition block_end :: "mem \<Rightarrow> nat \<Rightarrow> nat \<Rightarrow> uintE \<Rightarrow> nat \<Rightarrow> uintE" where
  "block_end m edge_start num_blocks degree i =
     (if i = num_blocks - 1 then degree
      else read32 m (edge_start + unat (block_offsets m edge_start i)))"

text \<open>
  The loop over the blocks \<open>i, i + 1, \<dots>, num_blocks - 1\<close>.  When the callback returns
  false the weighted decoder executes \<^verbatim>\<open>return\<close> (\<open>stop_all\<close>), the later blocks of the
  unweighted decoder execute \<^verbatim>\<open>end_offset = 0\<close> or \<^verbatim>\<open>break\<close> and go on with the next
  block.  The iterations of \<^verbatim>\<open>parallel_for\<close> are taken in index order.
\<close>

function decode_blocks ::
  "'w weight_ops \<Rightarrow> ('w, 's) callback \<Rightarrow> mem \<Rightarrow> nat \<Rightarrow> uintE \<Rightarrow> uintE \<Rightarrow> nat \<Rightarrow> bool \<Rightarrow> nat \<Rightarrow> 's
   \<Rightarrow> 's option" where
  "decode_blocks W t m edge_start source degree num_blocks stop_all i s =
     (if i < num_blocks then
        let finger = block_finger m edge_start num_blocks i;
            start_offset = read32 m finger;
            end_offset = block_end m edge_start num_blocks degree i
        in (case decode_one_block W t m source (finger + 4) start_offset end_offset s of
              None \<Rightarrow> None
            | Some (continue, s') \<Rightarrow>
                if \<not> continue \<and> stop_all then Some s'
                else decode_blocks W t m edge_start source degree num_blocks stop_all (i + 1) s')
      else Some s)"
  by pat_completeness auto
termination
  by (relation "measure (\<lambda>(W, t, m, es, src, d, nb, sa, i, s). nb - i)") auto

declare decode_blocks.simps [simp del]

text \<open>\<^verbatim>\<open>decode\<close> for \<^verbatim>\<open>W = pbbs::empty\<close>: the first block apart (a false result returns from
  the function), then the blocks from 1 on, by \<^verbatim>\<open>parallel_for\<close> or by the plain loop.\<close>

definition decode_unweighted ::
  "(unit, 's) callback \<Rightarrow> mem \<Rightarrow> nat \<Rightarrow> uintE \<Rightarrow> uintE \<Rightarrow> bool \<Rightarrow> 's \<Rightarrow> 's option" where
  "decode_unweighted t m edge_start source degree parallel s =
     (if degree > 0 then
        let virtual_degree = read32 m edge_start;
            num_blocks = num_blocks_of virtual_degree;
            finger = block_finger m edge_start num_blocks 0;
            start_offset = read32 m finger;
            end_offset = block_end m edge_start num_blocks degree 0
        in (case decode_one_block W_empty t m source (finger + 4) start_offset end_offset s of
              None \<Rightarrow> None
            | Some (continue, s') \<Rightarrow>
                if \<not> continue then Some s'
                else if num_blocks > 2 \<and> parallel
                then decode_blocks W_empty t m edge_start source degree num_blocks False 1 s'
                else decode_blocks W_empty t m edge_start source degree num_blocks False 1 s')
      else Some s)"

text \<open>\<^verbatim>\<open>decode\<close> for every other weight type: one sequential loop over all blocks.\<close>

definition decode_weighted ::
  "'w weight_ops \<Rightarrow> ('w, 's) callback \<Rightarrow> mem \<Rightarrow> nat \<Rightarrow> uintE \<Rightarrow> uintE \<Rightarrow> bool \<Rightarrow> 's
   \<Rightarrow> 's option" where
  "decode_weighted W t m edge_start source degree par s =
     (if degree > 0 then
        let virtual_degree = read32 m edge_start;
            num_blocks = num_blocks_of virtual_degree
        in decode_blocks W t m edge_start source degree num_blocks True 0 s
      else Some s)"

text \<open>The callback that accepts every edge and records its arguments.\<close>

definition record_all :: "('w, (uintE \<times> uintE \<times> 'w \<times> nat) list) callback" where
  "record_all s source ngh wgh edgeID = (True, s @ [(source, ngh, wgh, edgeID)])"

section \<open>Random access\<close>

text \<open>Modelled from the spec: \<^verbatim>\<open>pbbslib::binary_search(seq, v, less)\<close> (not among the
  sources), the search over the cumulative block counts: the first index whose
  element is not below the key in the given order, the length of the sequence when there is none.\<close>
definition binary_search :: "nat \<Rightarrow> (nat \<Rightarrow> nat) \<Rightarrow> nat \<Rightarrow> (nat \<Rightarrow> nat \<Rightarrow> bool) \<Rightarrow> nat" where
  "binary_search n f v lessf = length (takeWhile (\<lambda>j. lessf (f j) v) [0..<n])"

function get_ith_loop ::
  "'w weight_ops \<Rightarrow> mem \<Rightarrow> nat \<Rightarrow> uintE \<Rightarrow> 'w \<Rightarrow> nat \<Rightarrow> nat \<Rightarrow> (uintE \<times> 'w) option" where
  "get_ith_loop W m finger ngh wgh edgeID i =
     (if edgeID < i then
        (case eatEdge m finger of
           None \<Rightarrow> None
         | Some (d, finger1) \<Rightarrow>
             (case eatWeight W m finger1 of
                None \<Rightarrow> None
              | Some (wgh', finger2) \<Rightarrow> get_ith_loop W m finger2 (ngh + d) wgh' (edgeID + 1) i))
      else Some (ngh, wgh))"
  by pat_completeness auto
termination
  by (relation "measure (\<lambda>(W, m, f, ngh, wgh, edgeID, i). i - edgeID)") auto

declare get_ith_loop.simps [simp del]

text \<open>\<^verbatim>\<open>get_ith_neighbor\<close>; a failed \<^verbatim>\<open>assert\<close> gives \<open>None\<close>.\<close>

definition get_ith_neighbor ::
  "'w weight_ops \<Rightarrow> mem \<Rightarrow> nat \<Rightarrow> uintE \<Rightarrow> uintE \<Rightarrow> nat \<Rightarrow> (uintE \<times> 'w) option" where
  "get_ith_neighbor W m edge_start source degree i =
     (let virtual_degree = read32 m edge_start;
          num_blocks = num_blocks_of virtual_degree;
          blocks_f = (\<lambda>j. unat (block_end m edge_start num_blocks degree j));
          block = binary_search num_blocks blocks_f i (\<lambda>l r. l \<le> r)
      in if \<not> block < num_blocks then None
         else let finger = block_finger m edge_start num_blocks block;
                  start = read32 m finger
              in (case eatFirstEdge m (finger + 4) source of
                    None \<Rightarrow> None
                  | Some (ngh, finger1) \<Rightarrow>
                      (case eatWeight W m finger1 of
                         None \<Rightarrow> None
                       | Some (wgh, finger2) \<Rightarrow>
                           if i = unat start then Some (ngh, wgh)
                           else get_ith_loop W m finger2 ngh wgh (unat start + 1) i)))"

section \<open>The simple iterator and intersection\<close>

text \<open>
  \<^verbatim>\<open>simple_iter\<close>.  The value of \<^verbatim>\<open>last_edge\<close> is \<open>None\<close> while it is uninitialised
  (degree 0) and after a read that has no value; \<^verbatim>\<open>next()\<close> on such an iterator
  leaves it so, and only a use of the missing value is an error.
\<close>

record 'w simple_iter =
  si_base :: nat
  si_finger :: nat
  si_src :: uintE
  si_degree :: uintE
  si_cur_chunk :: nat
  si_last_edge :: "(uintE \<times> 'w) option"
  si_proc :: nat




definition simple_iter_has_next :: "'w simple_iter \<Rightarrow> bool" where
  "simple_iter_has_next it = (si_cur_chunk it * PARALLEL_DEGREE + si_proc it < unat (si_degree it))"







section \<open>Pack and repack\<close>

text \<open>Writing a run of edges behind a given last neighbour
  (\<^verbatim>\<open>compressEdge\<close> of the difference, then \<^verbatim>\<open>compressWeight\<close>), and a whole block
  (\<^verbatim>\<open>compressFirstEdge\<close> and \<^verbatim>\<open>compressWeight\<close> for the first edge, then the run).\<close>

fun write_edges ::
  "'w weight_ops \<Rightarrow> mem \<Rightarrow> nat \<Rightarrow> nat \<Rightarrow> uintE \<Rightarrow> (uintE \<times> 'w) list \<Rightarrow> mem \<times> nat" where
  "write_edges W m start offset last_ngh [] = (m, offset)"
| "write_edges W m start offset last_ngh (e # es) =
     (let difference = fst e - last_ngh;
          (m1, off1) = compressEdge m start offset difference;
          (m2, off2) = compressWeight W m1 start off1 (snd e)
      in write_edges W m2 start off2 (fst e) es)"

definition write_block ::
  "'w weight_ops \<Rightarrow> mem \<Rightarrow> nat \<Rightarrow> nat \<Rightarrow> uintE \<Rightarrow> (uintE \<times> 'w) list \<Rightarrow> mem \<times> nat" where
  "write_block W m start offset source es =
     (case es of
        [] \<Rightarrow> (m, offset)
      | e # rest \<Rightarrow>
          let (m1, off1) = compressFirstEdge m start offset (uint source) (uint (fst e));
              (m2, off2) = compressWeight W m1 start off1 (snd e)
          in write_edges W m2 start off2 (fst e) rest)"

text \<open>Modelled from the spec: \<^verbatim>\<open>pbbslib::scan_add_inplace\<close> (not among the sources), the
  scan that turns counts into offsets: every element becomes the sum of the elements
  before it, and the total is returned.\<close>
definition scan_add_inplace :: "'a::monoid_add list \<Rightarrow> 'a list \<times> 'a" where
  "scan_add_inplace xs = (map (\<lambda>i. sum_list (take i xs)) [0..<length xs], sum_list xs)"

text \<open>The filter loop of \<^verbatim>\<open>pack\<close>, \<^verbatim>\<open>for (i = 1; i < block_deg; i++)\<close>, with the pointer it
  reaches.  The buffer \<^verbatim>\<open>tmp\<close> has \<^verbatim>\<open>PARALLEL_DEGREE\<close> entries; a write behind it has no
  value.\<close>

function pack_filter_rest ::
  "'w weight_ops \<Rightarrow> (uintE \<Rightarrow> uintE \<Rightarrow> 'w \<Rightarrow> bool) \<Rightarrow> mem \<Rightarrow> uintE \<Rightarrow> nat \<Rightarrow> uintE \<Rightarrow> nat \<Rightarrow> nat
   \<Rightarrow> (uintE \<times> 'w) list \<Rightarrow> ((uintE \<times> 'w) list \<times> nat) option" where
  "pack_filter_rest W pred m source finger ngh i block_deg tmp =
     (if i < block_deg then
        (case eatEdge m finger of
           None \<Rightarrow> None
         | Some (d, finger1) \<Rightarrow>
             (case eatWeight W m finger1 of
                None \<Rightarrow> None
              | Some (wgh, finger2) \<Rightarrow>
                  let ngh' = ngh + d
                  in if pred source ngh' wgh then
                       (if length tmp < PARALLEL_DEGREE
                        then pack_filter_rest W pred m source finger2 ngh' (i + 1) block_deg
                               (tmp @ [(ngh', wgh)])
                        else None)
                     else pack_filter_rest W pred m source finger2 ngh' (i + 1) block_deg tmp))
      else Some (tmp, finger))"
  by pat_completeness auto
termination
  by (relation "measure (\<lambda>(W, p, m, src, f, ngh, i, bd, tmp). bd - i)") auto

declare pack_filter_rest.simps [simp del]

text \<open>The body of the first \<^verbatim>\<open>par_for\<close> of \<^verbatim>\<open>pack\<close> for block \<open>i\<close>: filter the block into
  \<^verbatim>\<open>tmp\<close>, recompress it in place when some but not all edges survive, and check
  \<^verbatim>\<open>assert(offset <= final_off)\<close>.  The result is the store and the count \<^verbatim>\<open>ct\<close>.  The
  assertion is compiled out when the build defines \<^verbatim>\<open>NDEBUG\<close>; the build is not among the
  sources, and whether it does is the parameter \<open>NDEBUG\<close>.\<close>

definition pack_block ::
  "bool \<Rightarrow> 'w weight_ops \<Rightarrow> (uintE \<Rightarrow> uintE \<Rightarrow> 'w \<Rightarrow> bool) \<Rightarrow> mem \<Rightarrow> nat \<Rightarrow> uintE \<Rightarrow> uintE
   \<Rightarrow> nat \<Rightarrow> nat \<Rightarrow> (mem \<times> nat) option" where
  "pack_block NDEBUG W pred m edge_start source degree num_blocks i =
     (let finger0 = block_finger m edge_start num_blocks i;
          start_offset = read32 m finger0;
          end_offset = block_end m edge_start num_blocks degree i;
          block_deg = end_offset - start_offset;
          finger = finger0 + 4
      in (case (if block_deg > 0 then
                  (case eatFirstEdge m finger source of
                     None \<Rightarrow> None
                   | Some (ngh, finger1) \<Rightarrow>
                       (case eatWeight W m finger1 of
                          None \<Rightarrow> None
                        | Some (wgh, finger2) \<Rightarrow>
                            pack_filter_rest W pred m source finger2 ngh 1 (unat block_deg)
                              (if pred source ngh wgh then [(ngh, wgh)] else [])))
                else Some ([], finger)) of
            None \<Rightarrow> None
          | Some (tmp, finger_end) \<Rightarrow>
              let ct = length tmp;
                  final_off = finger_end - finger0;
                  (m', offset) = (if ct > 0 \<and> ct < unat block_deg
                                  then write_block W m (finger0 + 4) 0 source tmp
                                  else (m, 0))
              in if NDEBUG \<or> offset \<le> final_off then Some (m', ct) else None))"

function pack_blocks ::
  "bool \<Rightarrow> 'w weight_ops \<Rightarrow> (uintE \<Rightarrow> uintE \<Rightarrow> 'w \<Rightarrow> bool) \<Rightarrow> mem \<Rightarrow> nat \<Rightarrow> uintE \<Rightarrow> uintE
   \<Rightarrow> nat \<Rightarrow> nat \<Rightarrow> nat list \<Rightarrow> (mem \<times> nat list) option" where
  "pack_blocks NDEBUG W pred m edge_start source degree num_blocks i block_cts =
     (if i < num_blocks then
        (case pack_block NDEBUG W pred m edge_start source degree num_blocks i of
           None \<Rightarrow> None
         | Some (m', ct) \<Rightarrow>
             pack_blocks NDEBUG W pred m' edge_start source degree num_blocks (i + 1)
               (block_cts @ [ct]))
      else Some (m, block_cts))"
  by pat_completeness auto
termination
  by (relation "measure (\<lambda>(N, W, p, m, es, src, d, nb, i, cts). nb - i)") auto

declare pack_blocks.simps [simp del]

text \<open>The second \<^verbatim>\<open>par_for\<close> of \<^verbatim>\<open>pack\<close>: \<^verbatim>\<open>*block_deg_ptr = scan_cts[i]\<close> for every block.\<close>

function pack_write_starts :: "mem \<Rightarrow> nat \<Rightarrow> nat \<Rightarrow> nat list \<Rightarrow> nat \<Rightarrow> mem" where
  "pack_write_starts m edge_start num_blocks scan_cts i =
     (if i < num_blocks then
        pack_write_starts
          (write32 m (block_finger m edge_start num_blocks i) (of_nat (scan_cts ! i)))
          edge_start num_blocks scan_cts (i + 1)
      else m)"
  by pat_completeness auto
termination
  by (relation "measure (\<lambda>(m, es, nb, cts, i). nb - i)") auto

declare pack_write_starts.simps [simp del]

text \<open>\<^verbatim>\<open>repack\<close>, step 1: the decode loop whose body stores each edge into
  \<^verbatim>\<open>U[edgeID]\<close>.  \<^verbatim>\<open>U\<close> has \<open>cap\<close> entries, unset at first; a store behind the array has
  no value.\<close>

definition store_U ::
  "nat \<Rightarrow> ('w, (nat \<rightharpoonup> uintE \<times> 'w) option) callback" where
  "store_U cap s source ngh wgh edgeID =
     (True, case s of None \<Rightarrow> None
            | Some U \<Rightarrow> if edgeID < cap then Some (U(edgeID \<mapsto> (ngh, wgh))) else None)"

definition U_slice :: "(nat \<rightharpoonup> 'a) \<Rightarrow> nat \<Rightarrow> nat \<Rightarrow> 'a list option" where
  "U_slice U start end = those (map U [start..<end])"

text \<open>The 16-byte scratch buffer \<^verbatim>\<open>tmp\<close> that \<^verbatim>\<open>repack\<close> compresses into to measure sizes.\<close>

definition scratch :: mem where
  "scratch = (\<lambda>_. 0)"

fun tail_bytes :: "'w weight_ops \<Rightarrow> uintE \<Rightarrow> (uintE \<times> 'w) list \<Rightarrow> uintE \<Rightarrow> uintE" where
  "tail_bytes W last_ngh [] bytes = bytes"
| "tail_bytes W last_ngh (e # es) bytes =
     (let difference = fst e - last_ngh;
          off = (of_nat (snd (compressEdge scratch 0 0 difference)) :: uintE);
          bytes1 = bytes + off;
          off' = (of_nat (snd (compressWeight W scratch 0 0 (snd e))) :: uintE)
      in tail_bytes W (fst e) es (bytes1 + off'))"

definition block_bytes :: "'w weight_ops \<Rightarrow> uintE \<Rightarrow> (uintE \<times> 'w) list \<Rightarrow> uintE" where
  "block_bytes W source es =
     (case es of
        [] \<Rightarrow> 4
      | nw # rest \<Rightarrow>
          let bytes = 4;
              off = (of_nat (snd (compressFirstEdge scratch 0 0 (uint source) (uint (fst nw)))) :: uintE);
              bytes1 = bytes + off;
              off' = (of_nat (snd (compressWeight W scratch 0 0 (snd nw))) :: uintE)
          in tail_bytes W (fst nw) rest (bytes1 + off'))"

text \<open>Step 3: \<^verbatim>\<open>offs[i]\<close>, the number of bytes of every new block.\<close>

function repack_sizes ::
  "'w weight_ops \<Rightarrow> (nat \<rightharpoonup> uintE \<times> 'w) \<Rightarrow> uintE \<Rightarrow> nat \<Rightarrow> nat \<Rightarrow> nat \<Rightarrow> uintE list
   \<Rightarrow> uintE list option" where
  "repack_sizes W U source degree new_blocks i offs =
     (if i < new_blocks then
        let start = i * PARALLEL_DEGREE;
            end = start + min PARALLEL_DEGREE (degree - start)
        in (case U_slice U start end of
              None \<Rightarrow> None
            | Some es \<Rightarrow>
                if es = [] then None
                else repack_sizes W U source degree new_blocks (i + 1)
                       (offs @ [block_bytes W source es]))
      else Some offs)"
  by pat_completeness auto
termination
  by (relation "measure (\<lambda>(W, U, src, d, nb, i, offs). nb - i)") auto

declare repack_sizes.simps [simp del]

text \<open>Step 5: every new block is written at \<^verbatim>\<open>nghs_start + bytes_imap[i]\<close>.\<close>

function repack_write ::
  "'w weight_ops \<Rightarrow> mem \<Rightarrow> (nat \<rightharpoonup> uintE \<times> 'w) \<Rightarrow> nat \<Rightarrow> uintE \<Rightarrow> nat \<Rightarrow> nat \<Rightarrow> uintE list \<Rightarrow> nat
   \<Rightarrow> nat \<Rightarrow> mem option" where
  "repack_write W m U edge_start source degree nghs_start bytes_imap new_blocks i =
     (if i < new_blocks then
        let start = i * PARALLEL_DEGREE;
            end = start + min PARALLEL_DEGREE (degree - start);
            finger = nghs_start + unat (bytes_imap ! i);
            m1 = (if i > 0
                  then write32 m (edge_start + 4 + 4 * (i - 1)) (of_nat (finger - edge_start))
                  else m);
            m2 = write32 m1 finger (of_nat start)
        in (case U_slice U start end of
              None \<Rightarrow> None
            | Some es \<Rightarrow>
                if es = [] then None
                else repack_write W (fst (write_block W m2 finger 4 source es)) U edge_start
                       source degree nghs_start bytes_imap new_blocks (i + 1))
      else Some m)"
  by pat_completeness auto
termination
  by (relation "measure (\<lambda>(W, m, U, es, src, d, ns, bi, nb, i). nb - i)") auto

declare repack_write.simps [simp del]

definition repack :: "'w weight_ops \<Rightarrow> mem \<Rightarrow> uintE \<Rightarrow> uintE \<Rightarrow> nat \<Rightarrow> bool \<Rightarrow> mem option" where
  "repack W m source degree edge_start par =
     (if degree > 0 then
        let virtual_degree = read32 m edge_start;
            num_blocks = num_blocks_of virtual_degree;
            cap = (if degree > 100 then unat degree else 100)
        in (case decode_blocks W (store_U cap) m edge_start source degree num_blocks False 0
                   (Some Map.empty) of
              Some (Some U) \<Rightarrow>
                let new_blocks = 1 + unat (degree - 1) div PARALLEL_DEGREE
                in (case repack_sizes W U source (unat degree) new_blocks 0 [] of
                      None \<Rightarrow> None
                    | Some offs \<Rightarrow>
                        let bytes_imap = fst (scan_add_inplace (offs @ [0]));
                            m1 = write32 m edge_start degree;
                            nghs_start = edge_start + (new_blocks - 1) * 4 + 4
                        in repack_write W m1 U edge_start source (unat degree) nghs_start
                             bytes_imap new_blocks 0)
            | _ \<Rightarrow> None)
      else Some m)"

text \<open>\<^verbatim>\<open>pack\<close>.  The array \<^verbatim>\<open>block_cts_stack\<close> has 100 entries and is used unless
  \<^verbatim>\<open>num_blocks > 100\<close>; the store \<^verbatim>\<open>block_cts[num_blocks] = 0\<close> lies behind it when
  \<^verbatim>\<open>num_blocks\<close> is 100 and has no value then.\<close>

definition pack ::
  "bool \<Rightarrow> 'w weight_ops \<Rightarrow> (uintE \<Rightarrow> uintE \<Rightarrow> 'w \<Rightarrow> bool) \<Rightarrow> mem \<Rightarrow> nat \<Rightarrow> uintE \<Rightarrow> uintE \<Rightarrow> bool
   \<Rightarrow> (mem \<times> nat) option" where
  "pack NDEBUG W pred m edge_start source degree par =
     (let virtual_degree = read32 m edge_start;
          num_blocks = num_blocks_of virtual_degree
      in (case pack_blocks NDEBUG W pred m edge_start source degree num_blocks 0 [] of
            None \<Rightarrow> None
          | Some (m1, block_cts) \<Rightarrow>
              if num_blocks = 100 then None
              else let (scan_cts, deg_remaining) = scan_add_inplace (block_cts @ [0]);
                       m2 = pack_write_starts m1 edge_start num_blocks scan_cts 0
                   in if deg_remaining < unat (virtual_degree div 10) then
                        (case repack W m2 source (of_nat deg_remaining) edge_start par of
                           None \<Rightarrow> None
                         | Some m3 \<Rightarrow> Some (m3, deg_remaining))
                      else Some (m2, deg_remaining)))"

section \<open>The block allocator\<close>

text \<open>
  \<^verbatim>\<open>block_allocator\<close> of \<^verbatim>\<open>pbbslib/block_allocator.h\<close>.  A block is its address; a
  linked list of blocks is the list of the addresses reached from its head, and the
  pointer \<^verbatim>\<open>mid\<close> is the list reached from it (empty while it is unset).  The process
  allocator behind \<^verbatim>\<open>aligned_alloc\<close> hands out fresh addresses from \<open>heap_next\<close> up to
  \<open>heap_limit\<close> and returns \<^verbatim>\<open>NULL\<close> beyond.  A fatal end of the process is a value:
  \<^verbatim>\<open>exit(status)\<close> with the diagnostic written to \<^verbatim>\<open>stderr\<close>, or a step that C++ leaves
  undefined.  Counters are natural numbers; \<^verbatim>\<open>size_t\<close> is assumed not to wrap.
\<close>

datatype fatal = Exit nat string | Undefined_behaviour

record thread_list =
  sz :: nat
  head :: "nat list"
  mid :: "nat list"

record block_allocator =
  pool_roots :: "nat list"
  global_stack :: "nat list list"
  local_lists :: "thread_list list"
  list_length :: nat
  max_blocks :: nat
  block_size :: nat
  blocks_allocated :: nat
  thread_count :: nat
  heap_next :: nat
  heap_limit :: nat

definition pad_size :: nat where
  "pad_size = 256"

definition default_alloc_size :: nat where
  "default_alloc_size = 1000000"

definition default_list_size :: nat where
  "default_list_size = 2 ^ 16"

definition aligned_alloc :: "block_allocator \<Rightarrow> nat \<Rightarrow> nat \<Rightarrow> (nat \<times> block_allocator) option" where
  "aligned_alloc a alignment nbytes =
     (let start = ((heap_next a + alignment - 1) div alignment) * alignment
      in if start + nbytes \<le> heap_limit a \<and> 0 < start
         then Some (start, a\<lparr>heap_next := start + nbytes\<rparr>)
         else None)"

text \<open>\<^verbatim>\<open>initialize_list\<close> chains \<^verbatim>\<open>list_length\<close> blocks from \<^verbatim>\<open>start\<close>.  With
  \<^verbatim>\<open>list_length = 0\<close> the loop bound \<^verbatim>\<open>list_length - 1\<close> wraps around, and a block
  smaller than the pointer it has to hold (8 bytes) is overrun: both are undefined.\<close>

definition initialize_list :: "block_allocator \<Rightarrow> nat \<Rightarrow> fatal + nat list" where
  "initialize_list a start =
     (if list_length a = 0 \<or> block_size a < 8 then Inl Undefined_behaviour
      else Inr (map (\<lambda>i. start + i * block_size a) [0..<list_length a]))"

definition num_allocated_blocks :: "block_allocator \<Rightarrow> nat" where
  "num_allocated_blocks a = blocks_allocated a"

text \<open>The difference is taken in \<^verbatim>\<open>size_t\<close>: below zero it wraps around.\<close>

definition num_used_blocks :: "block_allocator \<Rightarrow> nat" where
  "num_used_blocks a =
     (let free_blocks = length (global_stack a) * list_length a
                        + sum_list (map sz (take (thread_count a) (local_lists a)))
      in nat ((int (blocks_allocated a) - int free_blocks) mod 2 ^ 64))"

definition allocate_blocks :: "block_allocator \<Rightarrow> nat \<Rightarrow> fatal + (nat \<times> block_allocator)" where
  "allocate_blocks a num_blocks =
     (case aligned_alloc a pad_size (num_blocks * block_size a + pad_size) of
        None \<Rightarrow> Inl (Exit 1 ''Cannot allocate space in block_allocator'')
      | Some (start, a1) \<Rightarrow>
          let a2 = a1\<lparr>blocks_allocated := blocks_allocated a1 + num_blocks\<rparr>
          in if blocks_allocated a2 > max_blocks a2
             then Inl (Exit 1 ''Too many blocks in block_allocator, change max_blocks'')
             else Inr (start, a2\<lparr>pool_roots := start # pool_roots a2\<rparr>))"

definition get_list :: "block_allocator \<Rightarrow> fatal + (nat list \<times> block_allocator)" where
  "get_list a =
     (case global_stack a of
        rem # rest \<Rightarrow> Inr (rem, a\<lparr>global_stack := rest\<rparr>)
      | [] \<Rightarrow>
          (case allocate_blocks a (list_length a) of
             Inl e \<Rightarrow> Inl e
           | Inr (start, a1) \<Rightarrow>
               (case initialize_list a1 start of
                  Inl e \<Rightarrow> Inl e
                | Inr l \<Rightarrow> Inr (l, a1))))"

text \<open>The \<^verbatim>\<open>parallel_for\<close> of \<^verbatim>\<open>reserve\<close> pushes the lists in index order.\<close>

fun reserve_push :: "block_allocator \<Rightarrow> nat \<Rightarrow> nat list \<Rightarrow> fatal + block_allocator" where
  "reserve_push a start [] = Inr a"
| "reserve_push a start (i # rest) =
     (case initialize_list a (start + i * list_length a * block_size a) of
        Inl e \<Rightarrow> Inl e
      | Inr l \<Rightarrow> reserve_push (a\<lparr>global_stack := l # global_stack a\<rparr>) start rest)"

definition reserve :: "block_allocator \<Rightarrow> nat \<Rightarrow> fatal + block_allocator" where
  "reserve a n =
     (if list_length a = 0 then Inl Undefined_behaviour
      else let num_lists = thread_count a + (n + list_length a - 1) div list_length a
           in (case allocate_blocks a (list_length a * num_lists) of
                 Inl e \<Rightarrow> Inl e
               | Inr (start, a1) \<Rightarrow> reserve_push a1 start [0..<num_lists]))"

text \<open>The constructor.  \<^verbatim>\<open>getMemorySize()\<close> of \<^verbatim>\<open>memory_size.h\<close> (not among the sources),
  the static \<^verbatim>\<open>thread_count\<close> and the state of the process allocator are parameters.  A
  division by a zero \<^verbatim>\<open>block_size\<close> is undefined.\<close>

definition new_block_allocator ::
  "nat \<Rightarrow> nat \<Rightarrow> nat \<Rightarrow> nat \<Rightarrow> nat \<Rightarrow> nat \<Rightarrow> nat \<Rightarrow> nat \<Rightarrow> fatal + block_allocator" where
  "new_block_allocator getMemorySize threads hnext hlimit bsize blocks_count list_length'
     max_blocks' =
     (if max_blocks' = 0 \<and> bsize = 0 then Inl Undefined_behaviour
      else
        let a = \<lparr>pool_roots = [], global_stack = [], local_lists = [],
                 list_length = list_length',
                 max_blocks = (if max_blocks' = 0 then (3 * getMemorySize div bsize) div 4
                               else max_blocks'),
                 block_size = bsize, blocks_allocated = 0, thread_count = threads,
                 heap_next = hnext, heap_limit = hlimit\<rparr>
        in (case reserve a blocks_count of
              Inl e \<Rightarrow> Inl e
            | Inr a1 \<Rightarrow>
                Inr (a1\<lparr>local_lists := replicate threads \<lparr>sz = 0, head = [], mid = []\<rparr>\<rparr>)))"

text \<open>\<^verbatim>\<open>free(ptr)\<close> called by the worker \<open>wid\<close>.\<close>

definition free :: "block_allocator \<Rightarrow> nat \<Rightarrow> nat \<Rightarrow> fatal + block_allocator" where
  "free a wid ptr =
     (if \<not> wid < length (local_lists a) then Inl Undefined_behaviour
      else
        let l = local_lists a ! wid
        in (case (if sz l = list_length a + 1 then Inr (a, l\<lparr>mid := head l\<rparr>)
                  else if sz l = 2 * list_length a then
                    (case mid l of
                       [] \<Rightarrow> Inl Undefined_behaviour
                     | p # lower \<Rightarrow>
                         Inr (a\<lparr>global_stack := lower # global_stack a\<rparr>,
                              l\<lparr>head := take (length (head l) - length lower) (head l),
                                mid := [p], sz := list_length a\<rparr>))
                  else Inr (a, l)) of
              Inl e \<Rightarrow> Inl e
            | Inr (a1, l1) \<Rightarrow>
                Inr (a1\<lparr>local_lists :=
                          (local_lists a1)[wid := l1\<lparr>head := ptr # head l1, sz := sz l1 + 1\<rparr>]\<rparr>)))"

text \<open>\<^verbatim>\<open>alloc()\<close> called by the worker \<open>wid\<close>; the result is the block and the new state.\<close>

definition alloc :: "block_allocator \<Rightarrow> nat \<Rightarrow> fatal + (nat \<times> block_allocator)" where
  "alloc a wid =
     (if \<not> wid < length (local_lists a) then Inl Undefined_behaviour
      else
        let l = local_lists a ! wid
        in (case (if sz l = 0 then
                    (case get_list a of
                       Inl e \<Rightarrow> Inl e
                     | Inr (lst, a1) \<Rightarrow> Inr (a1, l\<lparr>head := lst, sz := list_length a1\<rparr>))
                  else Inr (a, l)) of
              Inl e \<Rightarrow> Inl e
            | Inr (a1, l1) \<Rightarrow>
                (case head l1 of
                   [] \<Rightarrow> Inl Undefined_behaviour
                 | p # rest \<Rightarrow>
                     Inr (p, a1\<lparr>local_lists :=
                                  (local_lists a1)[wid := l1\<lparr>sz := sz l1 - 1, head := rest\<rparr>]\<rparr>))))"

text \<open>
  A client of the allocator: a sequence of calls of \<^verbatim>\<open>alloc\<close>, \<^verbatim>\<open>free\<close> and \<^verbatim>\<open>reserve\<close>,
  each by a worker.  \<open>Free wid k\<close>
  returns the \<open>k\<close>-th of the blocks handed out and not yet returned, so every freed
  block was returned by an earlier \<^verbatim>\<open>alloc\<close>; a \<open>Free\<close> with no such block is not a call
  the client can make (\<open>None\<close>).  The run yields the final allocator, the blocks still
  held, and the values of \<^verbatim>\<open>num_allocated_blocks()\<close> seen after every call.
\<close>

datatype alloc_call = Alloc nat | Free nat nat | Reserve nat

fun run_calls ::
  "block_allocator \<Rightarrow> nat list \<Rightarrow> alloc_call list
   \<Rightarrow> (fatal + (block_allocator \<times> nat list \<times> nat list)) option" where
  "run_calls a held [] = Some (Inr (a, held, []))"
| "run_calls a held (Alloc wid # cs) =
     (case alloc a wid of
        Inl e \<Rightarrow> Some (Inl e)
      | Inr (p, a1) \<Rightarrow>
          (case run_calls a1 (held @ [p]) cs of
             Some (Inr (a2, held2, seen)) \<Rightarrow> Some (Inr (a2, held2, num_allocated_blocks a1 # seen))
           | r \<Rightarrow> r))"
| "run_calls a held (Free wid k # cs) =
     (if \<not> k < length held then None
      else (case free a wid (held ! k) of
              Inl e \<Rightarrow> Some (Inl e)
            | Inr a1 \<Rightarrow>
                (case run_calls a1 (take k held @ drop (Suc k) held) cs of
                   Some (Inr (a2, held2, seen)) \<Rightarrow>
                     Some (Inr (a2, held2, num_allocated_blocks a1 # seen))
                 | r \<Rightarrow> r)))"
| "run_calls a held (Reserve n # cs) =
     (case reserve a n of
        Inl e \<Rightarrow> Some (Inl e)
      | Inr a1 \<Rightarrow>
          (case run_calls a1 held cs of
             Some (Inr (a2, held2, seen)) \<Rightarrow> Some (Inr (a2, held2, num_allocated_blocks a1 # seen))
           | r \<Rightarrow> r))"

section \<open>Breadth-first search\<close>

text \<open>Modelled from the spec: the macro \<^verbatim>\<open>UINT_E_MAX\<close> (not among the sources), the
  reserved sentinel of the 32-bit vertex ids.\<close>
definition UINT_E_MAX :: uintE where
  "UINT_E_MAX = - 1"

text \<open>\<^verbatim>\<open>BFS_F\<close>: the three functions act on the array \<^verbatim>\<open>Parents\<close>.\<close>

definition BFS_F_update :: "uintE list \<Rightarrow> uintE \<Rightarrow> uintE \<Rightarrow> bool \<times> uintE list" where
  "BFS_F_update Parents s d =
     (if Parents ! unat d = UINT_E_MAX then (True, Parents[unat d := s]) else (False, Parents))"

text \<open>Modelled from the spec: \<^verbatim>\<open>pbbslib::atomic_compare_and_swap(p, old, new)\<close> (not among
  the sources), the linearizable compare-and-swap: when \<^verbatim>\<open>*p\<close> is \<^verbatim>\<open>old\<close> it becomes
  \<^verbatim>\<open>new\<close> and the result is true, otherwise nothing changes and the result is false.\<close>
definition atomic_compare_and_swap :: "uintE list \<Rightarrow> nat \<Rightarrow> uintE \<Rightarrow> uintE \<Rightarrow> bool \<times> uintE list" where
  "atomic_compare_and_swap a p old new = (if a ! p = old then (True, a[p := new]) else (False, a))"

definition BFS_F_updateAtomic :: "uintE list \<Rightarrow> uintE \<Rightarrow> uintE \<Rightarrow> bool \<times> uintE list" where
  "BFS_F_updateAtomic Parents s d = atomic_compare_and_swap Parents (unat d) UINT_E_MAX s"

definition BFS_F_cond :: "uintE list \<Rightarrow> uintE \<Rightarrow> bool" where
  "BFS_F_cond Parents d = (Parents ! unat d = UINT_E_MAX)"

text \<open>Modelled from the spec: \<^verbatim>\<open>edgeMap\<close> of \<^verbatim>\<open>ligra.h\<close> (not among the sources) in
  sparse mode, which the threshold \<open>-1\<close> passed by \<^verbatim>\<open>BFS\<close> forces: for every vertex of
  the frontier and every out-neighbour \<open>d\<close> of it, if \<open>cond d\<close> holds call
  \<open>update_atomic\<close>, and collect the accepted \<open>d\<close>; duplicates are removed.  The order in
  which the workers reach the edges is the list \<open>es\<close>.  The second component lists the
  array after every edge.\<close>
fun edgeMap_sparse ::
  "uintE list \<Rightarrow> (uintE \<times> uintE) list \<Rightarrow> uintE list \<times> uintE list list \<times> uintE list" where
  "edgeMap_sparse Parents [] = (Parents, [], [])"
| "edgeMap_sparse Parents ((s, d) # es) =
     (let (accepted, Parents1) =
            (if BFS_F_cond Parents d then BFS_F_updateAtomic Parents s d else (False, Parents));
          (Parents2, seen, out) = edgeMap_sparse Parents1 es
      in (Parents2, Parents1 # seen, if accepted then d # out else out))"

definition out_edges :: "(uintE \<Rightarrow> uintE list) \<Rightarrow> uintE list \<Rightarrow> (uintE \<times> uintE) list" where
  "out_edges G Frontier = concat (map (\<lambda>s. map (\<lambda>d. (s, d)) (G s)) Frontier)"

text \<open>The loop of \<^verbatim>\<open>BFS\<close>, \<^verbatim>\<open>while (!Frontier.isEmpty())\<close>, for at most \<open>fuel\<close> rounds.
  \<open>sched r\<close> is the order in which round \<open>r\<close> reaches the out-edges of its frontier.
  The result lists, for every edge visited, the frontier of its round and the array
  \<^verbatim>\<open>Parents\<close> after the visit.\<close>

fun BFS_rounds ::
  "(uintE \<Rightarrow> uintE list) \<Rightarrow> (nat \<Rightarrow> (uintE \<times> uintE) list \<Rightarrow> (uintE \<times> uintE) list) \<Rightarrow> nat \<Rightarrow> nat
   \<Rightarrow> uintE list \<Rightarrow> uintE list \<Rightarrow> (uintE list \<times> uintE list) list" where
  "BFS_rounds G sched 0 r Parents Frontier = []"
| "BFS_rounds G sched (Suc fuel) r Parents Frontier =
     (if Frontier = [] then []
      else let (Parents1, seen, out) = edgeMap_sparse Parents (sched r (out_edges G Frontier))
           in map (\<lambda>P. (Frontier, P)) seen
              @ BFS_rounds G sched fuel (r + 1) Parents1 (remdups out))"

definition BFS ::
  "(uintE \<Rightarrow> uintE list) \<Rightarrow> (nat \<Rightarrow> (uintE \<times> uintE) list \<Rightarrow> (uintE \<times> uintE) list) \<Rightarrow> nat \<Rightarrow> nat \<Rightarrow> uintE
   \<Rightarrow> (uintE list \<times> uintE list) list" where
  "BFS G sched fuel n src =
     (let Parents = (replicate n UINT_E_MAX)[unat src := src]
      in ([src], Parents) # BFS_rounds G sched fuel 0 Parents [src])"

section \<open>Weighted breadth-first search\<close>

text \<open>
  \<^verbatim>\<open>wBFS\<close> has two overloads, selected by whether the weight type \<^verbatim>\<open>W\<close> is
  \<^verbatim>\<open>int32_t\<close>.  The overload for \<^verbatim>\<open>int32_t\<close> rests on the bucket structure and on
  \<^verbatim>\<open>edgeMapData\<close>, which are not among the sources; it is the parameter \<open>wBFS_int32\<close>.
  The other overload is \<^verbatim>\<open>assert(false)\<close> followed by the construction and return of a
  sequence of \<open>n\<close> entries \<^verbatim>\<open>INT_E_MAX\<close>.
\<close>

datatype weight_type = W_int32_t | W_pbbs_empty | W_other

datatype abort = Assertion_failed

text \<open>Modelled from the spec: the macro \<^verbatim>\<open>assert\<close> of \<^verbatim>\<open><cassert>\<close> (not among the sources).
  Whether the macro \<^verbatim>\<open>NDEBUG\<close> is defined is decided by the build, which is not among the
  sources either, and is the parameter \<open>NDEBUG\<close>: when it is defined \<^verbatim>\<open>assert\<close> expands to
  nothing, otherwise a false condition aborts the process.\<close>

definition cassert :: "bool \<Rightarrow> bool \<Rightarrow> abort + unit" where
  "cassert NDEBUG b = (if NDEBUG \<or> b then Inr () else Inl Assertion_failed)"

text \<open>Modelled from the spec: the macro \<^verbatim>\<open>INT_E_MAX\<close> (not among the sources), the
  largest signed 32-bit value.\<close>
definition INT_E_MAX :: uintE where
  "INT_E_MAX = 2147483647"

definition wBFS_not_int32 :: "bool \<Rightarrow> nat \<Rightarrow> uintE \<Rightarrow> abort + uintE list" where
  "wBFS_not_int32 NDEBUG n src =
     (case cassert NDEBUG False of
        Inl e \<Rightarrow> Inl e
      | Inr u \<Rightarrow> Inr (replicate n INT_E_MAX))"

definition wBFS ::
  "bool \<Rightarrow> (nat \<Rightarrow> uintE \<Rightarrow> abort + uintE list) \<Rightarrow> weight_type \<Rightarrow> nat \<Rightarrow> uintE
   \<Rightarrow> abort + uintE list" where
  "wBFS NDEBUG wBFS_int32 W n src =
     (if W = W_int32_t then wBFS_int32 n src else wBFS_not_int32 NDEBUG n src)"

section \<open>Concrete inputs and observations\<close>

text \<open>The region that \<^verbatim>\<open>sequentialCompressEdgeSet\<close> writes for a list at offset 0 of an
  array at address 0 of a zeroed store, and the pairs a decoder passes to a callback
  that accepts every edge.\<close>

definition encode_at0 :: "'w weight_ops \<Rightarrow> uintE \<Rightarrow> (uintE \<times> 'w) list \<Rightarrow> mem" where
  "encode_at0 W source es =
     (case sequentialCompressEdgeSet W (\<lambda>_. 0) 0 0 (length es) source es of
        Some (m, off) \<Rightarrow> m | None \<Rightarrow> (\<lambda>_. 0))"

definition decoded ::
  "'w weight_ops \<Rightarrow> mem \<Rightarrow> nat \<Rightarrow> uintE \<Rightarrow> uintE \<Rightarrow> (uintE \<times> 'w) list option" where
  "decoded W m edge_start source degree =
     map_option (map (\<lambda>(s, n, w, i). (n, w)))
       (decode_weighted W record_all m edge_start source degree False [])"

definition s5_nghs :: "(uintE \<times> unit) list" where
  "s5_nghs = [(3, ()), (7, ()), (32775, ()), (32776, ())]"

definition reject_all :: "uintE \<Rightarrow> uintE \<Rightarrow> 'w \<Rightarrow> bool" where
  "reject_all source ngh wgh = False"

definition odd_nghs :: "nat \<Rightarrow> (uintE \<times> unit) list" where
  "odd_nghs k = map (\<lambda>i. (of_nat (2 * i + 1), ())) [0..<k]"

definition virtual_degree_after_pack ::
  "bool \<Rightarrow> 'w weight_ops \<Rightarrow> (uintE \<Rightarrow> uintE \<Rightarrow> 'w \<Rightarrow> bool) \<Rightarrow> mem \<Rightarrow> nat \<Rightarrow> uintE \<Rightarrow> uintE
   \<Rightarrow> (uintE \<times> nat) option" where
  "virtual_degree_after_pack NDEBUG W pred m edge_start source degree =
     map_option (\<lambda>(m', k). (read32 m' edge_start, k))
       (pack NDEBUG W pred m edge_start source degree True)"

definition full_allocator :: block_allocator where
  "full_allocator = \<lparr>pool_roots = [], global_stack = [],
     local_lists = [\<lparr>sz = 0, head = [], mid = []\<rparr>], list_length = 4, max_blocks = 6,
     block_size = 8, blocks_allocated = 4, thread_count = 1, heap_next = 1,
     heap_limit = 100000\<rparr>"

text \<open>The invariant of the allocator's counters, with \<open>held\<close> blocks handed out: every
  list of the global stack has \<^verbatim>\<open>list_length\<close> blocks, every local list has \<^verbatim>\<open>sz\<close>
  blocks, \<^verbatim>\<open>mid\<close> points \<^verbatim>\<open>list_length + 1\<close> blocks above the bottom once that many
  and one more are there, and the blocks allocated are the free ones and the held ones.\<close>

definition thread_list_ok :: "nat \<Rightarrow> thread_list \<Rightarrow> bool" where
  "thread_list_ok L l = (sz l = length (head l)
      \<and> (L + 2 \<le> sz l \<longrightarrow> mid l = drop (sz l - (L + 1)) (head l)))"

definition alloc_inv :: "block_allocator \<Rightarrow> nat \<Rightarrow> bool" where
  "alloc_inv a held =
     (0 < list_length a \<and> length (local_lists a) = thread_count a
      \<and> (\<forall>l \<in> set (global_stack a). length l = list_length a)
      \<and> (\<forall>l \<in> set (local_lists a). thread_list_ok (list_length a) l)
      \<and> blocks_allocated a = length (global_stack a) * list_length a
            + sum_list (map sz (local_lists a)) + held)"

text \<open>One visit of an edge in a round with frontier \<open>F\<close> takes \<^verbatim>\<open>Parents\<close> from \<open>P\<close> to
  \<open>P'\<close>: an entry either keeps its value or goes from \<^verbatim>\<open>UINT_E_MAX\<close> to a vertex of \<open>F\<close>.
  \<open>steps_ok\<close> says so of every visit of a run.  The star of scenario S2 and the
  schedule that keeps the order of the edges are used as a concrete run.\<close>

definition assigned_once :: "uintE list \<Rightarrow> uintE list \<Rightarrow> uintE list \<Rightarrow> bool" where
  "assigned_once F P P' =
     (length P' = length P
      \<and> (\<forall>d < length P. P' ! d = P ! d
             \<or> (P ! d = UINT_E_MAX \<and> P' ! d \<in> set F \<and> P' ! d \<noteq> UINT_E_MAX)))"

fun steps_ok :: "uintE list \<Rightarrow> (uintE list \<times> uintE list) list \<Rightarrow> bool" where
  "steps_ok P [] = True"
| "steps_ok P ((F, P') # tr) = (assigned_once F P P' \<and> steps_ok P' tr)"

definition star_graph :: "uintE \<Rightarrow> uintE list" where
  "star_graph s = (if s = 0 then [1, 2, 3] else if s = 1 \<or> s = 2 \<or> s = 3 then [0] else [])"

definition in_order :: "nat \<Rightarrow> (uintE \<times> uintE) list \<Rightarrow> (uintE \<times> uintE) list" where
  "in_order r es = es"


text \<open>A callback that records the neighbour and index of every call and returns false
  on the edge of index \<open>k\<close>.  Two stores written by hand in the layout that \<^verbatim>\<open>decode\<close>
  reads: a list of virtual degree 1001 of source 0 whose two blocks hold one edge each
  (neighbours 3 and 5; weights 7 and 9 in the weighted one).\<close>

definition reject_at :: "nat \<Rightarrow> ('w, (uintE \<times> nat) list) callback" where
  "reject_at k s source ngh wgh edgeID = (edgeID \<noteq> k, s @ [(ngh, edgeID)])"

definition mem_of :: "uchar list \<Rightarrow> mem" where
  "mem_of bytes = (\<lambda>x. if x < length bytes then bytes ! x else 0)"

definition two_blocks_unweighted :: mem where
  "two_blocks_unweighted = mem_of [233, 3, 0, 0,  13, 0, 0, 0,  0, 0, 0, 0,  3,  1, 0, 0, 0,  5]"

definition two_blocks_weighted :: mem where
  "two_blocks_weighted = mem_of [233, 3, 0, 0,  14, 0, 0, 0,  0, 0, 0, 0,  3, 7,  1, 0, 0, 0,  5, 9]"

text \<open>A stand-in for the \<^verbatim>\<open>int32_t\<close> overload of \<^verbatim>\<open>wBFS\<close>, which the other overload never
  calls.\<close>

definition zero_dists :: "nat \<Rightarrow> uintE \<Rightarrow> abort + uintE list" where
  "zero_dists n src = Inr (replicate n 0)"







section \<open>The byte strings of the encoding\<close>

text \<open>
  What the write loops produce, as lists of bytes: \<open>enc_rest\<close> for the loop shared by
  \<^verbatim>\<open>compressEdge\<close> and \<^verbatim>\<open>compressFirstEdge\<close>, \<open>first_byte\<close> and \<open>enc_first\<close> for the first
  edge of a block and for an integer weight.  \<open>store_bytes\<close> writes a list into the store
  and \<open>holds\<close> says that the store has a list at an address.
\<close>

function enc_rest :: "uintE \<Rightarrow> uchar list" where
  "enc_rest tc =
     (if tc = 0 then []
      else (if drop_bit 7 tc > 0 then ucast (tc AND 0x7f) OR 0x80 else ucast (tc AND 0x7f))
           # enc_rest (drop_bit 7 tc))"
  by pat_completeness auto
termination
proof (relation "measure unat", goal_cases)
  case 1
  show ?case by simp
next
  case (2 tc)
  then have "0 < unat tc" by (simp add: unat_gt_0)
  then have "unat tc div 128 < unat tc" by simp
  moreover have "unat (drop_bit 7 tc) = unat tc div 128"
    using unat_drop_bit_eq [of 7 tc] by (simp add: drop_bit_eq_div)
  ultimately show ?case by simp
qed

declare enc_rest.simps [simp del]

fun store_bytes :: "mem \<Rightarrow> nat \<Rightarrow> uchar list \<Rightarrow> mem" where
  "store_bytes m a [] = m"
| "store_bytes m a (b # bs) = store_bytes (m(a := b)) (Suc a) bs"

definition holds :: "mem \<Rightarrow> nat \<Rightarrow> uchar list \<Rightarrow> bool" where
  "holds m a bs = (\<forall>i < length bs. m (a + i) = bs ! i)"

definition first_byte :: "bool \<Rightarrow> bool \<Rightarrow> uintE \<Rightarrow> uchar" where
  "first_byte c sg x = (let b0 = ucast (take_bit 6 x); b1 = (if sg then b0 OR 64 else b0) in if c then b1 OR 128 else b1)"

definition enc_first :: "int \<Rightarrow> uchar list" where
  "enc_first diff =
     (let tc0 = (word_of_int \<bar>diff\<bar> :: uintE)
      in first_byte (drop_bit 6 tc0 > 0) (diff < 0) tc0 # enc_rest (drop_bit 6 tc0))"

definition intE_bytes :: "intE \<Rightarrow> uchar list" where
  "intE_bytes w = enc_first (sint w)"

text \<open>
  The bytes of a run of edges and of a block, for a weight type whose bytes are given
  by \<open>wb\<close>; \<open>weight_ok W wb\<close> says that the weight functions of \<open>W\<close> write and read
  exactly these bytes.  \<open>chain\<close> says that no difference between consecutive
  neighbours is zero.  \<open>run_cb\<close> and \<open>run_blocks\<close> are the calls a decoder makes on the
  edges of a block and on the blocks of a list; \<open>region_ok\<close> says that the store has,
  at \<open>base\<close>, a region whose blocks decode to \<open>bs\<close>.
\<close>

fun enc_edges :: "('w \<Rightarrow> uchar list) \<Rightarrow> uintE \<Rightarrow> (uintE \<times> 'w) list \<Rightarrow> uchar list" where
  "enc_edges wb last_ngh [] = []"
| "enc_edges wb last_ngh (e # es) =
     enc_rest (fst e - last_ngh) @ wb (snd e) @ enc_edges wb (fst e) es"

definition enc_block :: "('w \<Rightarrow> uchar list) \<Rightarrow> uintE \<Rightarrow> (uintE \<times> 'w) list \<Rightarrow> uchar list" where
  "enc_block wb source es =
     (case es of
        [] \<Rightarrow> []
      | e # r \<Rightarrow> enc_first (uint (fst e) - uint source) @ wb (snd e) @ enc_edges wb (fst e) r)"

definition weight_ok :: "'w weight_ops \<Rightarrow> ('w \<Rightarrow> uchar list) \<Rightarrow> bool" where
  "weight_ok W wb =
     ((\<forall>m start off w. compressWeight W m start off w
          = (store_bytes m (start + off) (wb w), off + length (wb w)))
      \<and> (\<forall>m pos w. holds m pos (wb w) \<longrightarrow> eatWeight W m pos = Some (w, pos + length (wb w))))"

fun chain :: "uintE \<Rightarrow> (uintE \<times> 'w) list \<Rightarrow> bool" where
  "chain last_ngh [] = True"
| "chain last_ngh (e # es) = (fst e \<noteq> last_ngh \<and> chain (fst e) es)"

definition block_chain :: "(uintE \<times> 'w) list \<Rightarrow> bool" where
  "block_chain es = (case es of [] \<Rightarrow> True | e # r \<Rightarrow> chain (fst e) r)"

fun run_cb :: "('w, 's) callback \<Rightarrow> uintE \<Rightarrow> (uintE \<times> 'w) list \<Rightarrow> nat \<Rightarrow> 's \<Rightarrow> bool \<times> 's" where
  "run_cb t source [] idx s = (True, s)"
| "run_cb t source (e # es) idx s =
     (let (continue, s') = t s source (fst e) (snd e) idx
      in if continue then run_cb t source es (Suc idx) s' else (False, s'))"

fun run_blocks ::
  "('w, 's) callback \<Rightarrow> uintE \<Rightarrow> bool \<Rightarrow> (uintE \<times> 'w) list list \<Rightarrow> nat \<Rightarrow> 's \<Rightarrow> 's" where
  "run_blocks t source stop_all [] idx s = s"
| "run_blocks t source stop_all (b # bs) idx s =
     (let (continue, s') = run_cb t source b idx s
      in if \<not> continue \<and> stop_all then s'
         else run_blocks t source stop_all bs (idx + length b) s')"

definition block_start :: "'a list list \<Rightarrow> nat \<Rightarrow> nat" where
  "block_start bs i = length (concat (take i bs))"

definition region_ok ::
  "('w \<Rightarrow> uchar list) \<Rightarrow> mem \<Rightarrow> nat \<Rightarrow> uintE \<Rightarrow> (uintE \<times> 'w) list list \<Rightarrow> bool" where
  "region_ok wb m base source bs =
     (num_blocks_of (read32 m base) = length bs \<and> length (concat bs) < 2 ^ 32
      \<and> (\<forall>i < length bs.
            read32 m (block_finger m base (length bs) i) = of_nat (block_start bs i)
            \<and> holds m (block_finger m base (length bs) i + 4) (enc_block wb source (bs ! i))
            \<and> block_chain (bs ! i)))"







fun isect :: "uintE list \<Rightarrow> uintE list \<Rightarrow> uintE list" where
  "isect [] ys = []"
| "isect (x # xs) [] = []"
| "isect (x # xs) (y # ys) =
     (if x = y then x # isect xs ys
      else if x < y then isect xs (y # ys) else isect (x # xs) ys)"

section \<open>Single edges: what is written is what is read\<close>

lemma and_7f: "(x :: 'a::len word) AND 0x7f = take_bit 7 x"
  by (simp add: take_bit_eq_mask mask_eq_exp_minus_1)
lemma and_3f: "(x :: 'a::len word) AND 0x3f = take_bit 6 x"
  by (simp add: take_bit_eq_mask mask_eq_exp_minus_1)

lemma bit_128: "bit (128 :: int) n = (n = 7)"
  using bit_push_bit_iff_int [of 7 1 n] by (auto simp: bit_simps)

lemma bit_64: "bit (64 :: int) n = (n = 6)"
  using bit_push_bit_iff_int [of 6 1 n] by (auto simp: bit_simps)

lemma byte_zero_iff: "((b :: uchar) AND c \<noteq> 0) = (\<exists>n. bit b n \<and> bit c n)"
proof
  assume "b AND c \<noteq> 0"
  then obtain n where "bit (b AND c) n" by (auto simp: bit_eq_iff)
  then show "\<exists>n. bit b n \<and> bit c n" by (auto simp: bit_and_iff)
next
  assume "\<exists>n. bit b n \<and> bit c n"
  then obtain n where "bit (b AND c) n" by (auto simp: bit_and_iff)
  then show "b AND c \<noteq> 0" by auto
qed

lemma last_bit_cont: "((ucast (take_bit 7 (x::uintE)) OR 128 :: uchar) AND 128 \<noteq> 0)"
  unfolding byte_zero_iff by (rule exI [of _ 7]) (simp add: bit_simps bit_128)

lemma last_bit_nocont: "((ucast (take_bit 7 (x::uintE)) :: uchar) AND 128 = 0)"
  by (rule bit_eqI) (auto simp: bit_simps bit_128)

lemma payload_cont: "(ucast (take_bit 7 (ucast (take_bit 7 (x::uintE)) OR 128 :: uchar)) :: uintE) = take_bit 7 x"
  by (rule bit_eqI) (auto simp: bit_simps bit_128)

lemma payload_nocont: "(ucast (take_bit 7 (ucast (take_bit 7 (x::uintE)) :: uchar)) :: uintE) = take_bit 7 x"
  by (rule bit_eqI) (auto simp: bit_simps)

lemma recompose: "push_bit s (take_bit 7 (x::uintE)) OR push_bit (s + 7) (drop_bit 7 x) = push_bit s x"
proof (rule bit_eqI)
  fix n
  have "7 + (n - (s + 7)) = n - s" if "s \<le> n" "\<not> n - s < 7" using that by arith
  then show "bit (push_bit s (take_bit 7 x) OR push_bit (s + 7) (drop_bit 7 x)) n = bit (push_bit s x) n"
    by (cases "s \<le> n"; cases "n - s < 7") (auto simp: bit_simps)
qed

lemma nohigh: "take_bit s (acc::uintE) = acc \<Longrightarrow> bit acc n \<Longrightarrow> n < s"
  by (metis bit_take_bit_iff)

lemma add_is_or: "take_bit s (acc::uintE) = acc \<Longrightarrow> acc + push_bit s y = acc OR push_bit s y"
  by (rule disjunctive_add) (auto simp: bit_simps dest: nohigh)

lemma take_bit_step: "take_bit s (acc::uintE) = acc \<Longrightarrow> take_bit (s + 7) (acc OR push_bit s (take_bit 7 y)) = acc OR push_bit s (take_bit 7 y)"
  by (rule bit_eqI) (auto simp: bit_simps dest: nohigh)

lemma first_recompose: "take_bit 6 (x::uintE) OR push_bit 6 (drop_bit 6 x) = x"
proof (rule bit_eqI)
  fix n
  have "6 + (n - 6) = n" if "\<not> n < 6" for n :: nat using that by arith
  then show "bit (take_bit 6 x OR push_bit 6 (drop_bit 6 x)) n = bit x n"
    by (cases "n < 6") (auto simp: bit_simps dest: bit_imp_le_length)
qed

lemma bit_first_byte: "bit (first_byte c sg x) n = ((n < 6 \<and> bit x n) \<or> (n = 6 \<and> sg) \<or> (n = 7 \<and> c))"
  by (auto simp: first_byte_def Let_def bit_simps bit_128 bit_64)

lemma fb_payload:
  "(ucast (take_bit 6 (first_byte c sg x)) :: uintE) = take_bit 6 x"
  by (rule bit_eqI) (auto simp: bit_simps bit_first_byte)

lemma fb_cont: "(first_byte c sg x AND 128 \<noteq> 0) = c"
  unfolding byte_zero_iff by (auto simp: bit_first_byte bit_simps bit_128)

lemma fb_sign: "(first_byte c sg x AND 64 \<noteq> 0) = sg"
  unfolding byte_zero_iff by (auto simp: bit_first_byte bit_simps bit_64)


lemma compress_rest_eq:
  "compress_rest m start offset (ucast (tc AND 0x7f)) tc =
     (store_bytes m (start + offset) (enc_rest tc), offset + length (enc_rest tc))"
proof (induction tc arbitrary: m offset rule: enc_rest.induct)
  case (1 tc)
  show ?case
  proof (cases "tc = 0")
    case True
    then show ?thesis by (simp add: compress_rest.simps enc_rest.simps)
  next
    case False
    define b :: uchar where
      "b = (if drop_bit 7 tc > 0 then ucast (tc AND 0x7f) OR 0x80 else ucast (tc AND 0x7f))"
    from False have c: "(ucast (tc AND 0x7f) :: uchar) > 0 \<or> tc > 0"
      by (simp add: word_greater_zero_iff)
    have l: "compress_rest m start offset (ucast (tc AND 0x7f)) tc =
       compress_rest (m(start + offset := b)) start (offset + 1)
         (ucast (drop_bit 7 tc AND 0x7f)) (drop_bit 7 tc)"
      using compress_rest.simps [of m start offset "ucast (tc AND 0x7f)" tc] c
      by (simp add: Let_def b_def)
    have r: "enc_rest tc = b # enc_rest (drop_bit 7 tc)"
      using enc_rest.simps [of tc] False by (simp add: b_def)
    show ?thesis unfolding l r using 1 [OF False, of "m(start + offset := b)" "offset + 1"]
      by (simp add: fun_upd_def)
  qed
qed


lemma holds_Nil [simp]: "holds m a []"
  by (simp add: holds_def)

lemma holds_Cons: "holds m a (b # bs) = (m a = b \<and> holds m (Suc a) bs)"
  by (auto simp: holds_def nth_Cons' less_Suc_eq_0_disj)

lemma holds_append: "holds m a (xs @ ys) = (holds m a xs \<and> holds m (a + length xs) ys)"
  by (induction xs arbitrary: a) (auto simp: holds_Cons)

lemma enc_rest_Cons:
  "tc \<noteq> 0 \<Longrightarrow> enc_rest tc =
     (if drop_bit 7 tc > 0 then ucast (take_bit 7 tc) OR 128 else ucast (take_bit 7 tc))
     # enc_rest (drop_bit 7 tc)"
  using enc_rest.simps [of tc] by (simp add: and_7f)

lemma enc_rest_0 [simp]: "enc_rest 0 = []"
  by (simp add: enc_rest.simps)

lemma drop7_zero_take: "drop_bit 7 (tc :: uintE) = 0 \<Longrightarrow> take_bit 7 tc = tc"
  using recompose [of 0 tc] by simp

lemma shift_room:
  assumes "drop_bit 7 (tc :: uintE) \<noteq> 0" "drop_bit (32 - s) tc = 0"
  shows "s + 7 < 32"
proof (rule ccontr)
  assume "\<not> s + 7 < 32"
  then have "7 = (7 - (32 - s)) + (32 - s)" by arith
  then have "drop_bit 7 tc = drop_bit (7 - (32 - s)) (drop_bit (32 - s) tc)"
    by (metis drop_bit_drop_bit add.commute)
  with assms show False by simp
qed

lemma eat_cont_enc_rest:
  "holds m pos (enc_rest tc) \<Longrightarrow> tc \<noteq> 0 \<Longrightarrow> take_bit s acc = acc \<Longrightarrow> s < 32 \<Longrightarrow>
   drop_bit (32 - s) tc = 0 \<Longrightarrow>
   eat_cont m pos s acc = Some (acc OR push_bit s tc, pos + length (enc_rest tc))"
proof (induction tc arbitrary: pos s acc rule: enc_rest.induct)
  case (1 tc)
  let ?b = "if drop_bit 7 tc > 0 then ucast (take_bit 7 tc) OR 128 else ucast (take_bit 7 tc) :: uchar"
  from "1.prems" have e: "enc_rest tc = ?b # enc_rest (drop_bit 7 tc)"
    by (simp add: enc_rest_Cons)
  with "1.prems" have mb: "m pos = ?b" and h: "holds m (Suc pos) (enc_rest (drop_bit 7 tc))"
    by (simp_all add: holds_Cons)
  have pay: "(ucast (?b AND 0x7f) :: uintE) = take_bit 7 tc"
    by (simp add: and_7f payload_cont payload_nocont)
  show ?case
  proof (cases "drop_bit 7 tc = 0")
    case True
    then have "\<not> LAST_BIT_SET ?b" by (simp add: LAST_BIT_SET_def last_bit_nocont)
    with "1.prems" mb pay True show ?thesis
      by (subst eat_cont.simps) (simp add: Let_def e drop7_zero_take)
  next
    case False
    then have c: "LAST_BIT_SET ?b" by (simp add: LAST_BIT_SET_def last_bit_cont word_greater_zero_iff)
    from shift_room [OF False "1.prems"(5)] have s7: "s + 7 < 32" .
    then have "32 - s = (32 - (s + 7)) + 7" by arith
    then have d: "drop_bit (32 - (s + 7)) (drop_bit 7 tc) = 0"
      using "1.prems"(5) by (metis drop_bit_drop_bit add.commute)
    note IH = "1.IH" [OF "1.prems"(2) h False take_bit_step [OF "1.prems"(3)] s7 d]
    have "eat_cont m pos s acc = eat_cont m (Suc pos) (s + 7) (acc OR push_bit s (take_bit 7 tc))"
      using "1.prems"(4) mb c pay
      by (subst eat_cont.simps) (simp add: Let_def EDGE_SIZE_PER_BYTE_def)
    with IH show ?thesis
      by (simp add: e or.assoc recompose)
  qed
qed

lemma eatEdge_loop_enc_rest:
  "holds m pos (enc_rest tc) \<Longrightarrow> tc \<noteq> 0 \<Longrightarrow> take_bit s acc = acc \<Longrightarrow> s < 32 \<Longrightarrow>
   drop_bit (32 - s) tc = 0 \<Longrightarrow>
   eatEdge_loop m pos s acc = Some (acc OR push_bit s tc, pos + length (enc_rest tc))"
proof (induction tc arbitrary: pos s acc rule: enc_rest.induct)
  case (1 tc)
  let ?b = "if drop_bit 7 tc > 0 then ucast (take_bit 7 tc) OR 128 else ucast (take_bit 7 tc) :: uchar"
  from "1.prems" have e: "enc_rest tc = ?b # enc_rest (drop_bit 7 tc)"
    by (simp add: enc_rest_Cons)
  with "1.prems" have mb: "m pos = ?b" and h: "holds m (Suc pos) (enc_rest (drop_bit 7 tc))"
    by (simp_all add: holds_Cons)
  have pay: "(ucast (?b AND 0x7f) :: uintE) = take_bit 7 tc"
    by (simp add: and_7f payload_cont payload_nocont)
  have plus: "acc + push_bit s (take_bit 7 tc) = acc OR push_bit s (take_bit 7 tc)"
    by (rule add_is_or [OF "1.prems"(3)])
  show ?case
  proof (cases "drop_bit 7 tc = 0")
    case True
    then have "\<not> LAST_BIT_SET ?b" by (simp add: LAST_BIT_SET_def last_bit_nocont)
    with "1.prems" mb pay True plus show ?thesis
      by (subst eatEdge_loop.simps) (simp add: Let_def e drop7_zero_take)
  next
    case False
    then have c: "LAST_BIT_SET ?b" by (simp add: LAST_BIT_SET_def last_bit_cont word_greater_zero_iff)
    from shift_room [OF False "1.prems"(5)] have s7: "s + 7 < 32" .
    then have "32 - s = (32 - (s + 7)) + 7" by arith
    then have d: "drop_bit (32 - (s + 7)) (drop_bit 7 tc) = 0"
      using "1.prems"(5) by (metis drop_bit_drop_bit add.commute)
    note IH = "1.IH" [OF "1.prems"(2) h False take_bit_step [OF "1.prems"(3)] s7 d]
    have "eatEdge_loop m pos s acc
          = eatEdge_loop m (Suc pos) (s + 7) (acc OR push_bit s (take_bit 7 tc))"
      using "1.prems"(4) mb c pay plus
      by (subst eatEdge_loop.simps) (simp add: Let_def EDGE_SIZE_PER_BYTE_def)
    with IH show ?thesis
      by (simp add: e or.assoc recompose)
  qed
qed

lemma eatEdge_enc_rest:
  "holds m pos (enc_rest tc) \<Longrightarrow> tc \<noteq> 0 \<Longrightarrow> eatEdge m pos = Some (tc, pos + length (enc_rest tc))"
  using eatEdge_loop_enc_rest [of m pos tc 0 0] by (simp add: eatEdge_def)

lemma compressEdge_eq:
  "compressEdge m start off e = (store_bytes m (start + off) (enc_rest e), off + length (enc_rest e))"
  by (simp add: compressEdge_def compress_rest_eq)

lemma compressFirstEdge_eq:
  "compressFirstEdge m start off s t =
     (store_bytes m (start + off) (enc_first (t - s)), off + length (enc_first (t - s)))"
  by (simp add: compressFirstEdge_def enc_first_def Let_def compress_rest_eq first_byte_def and_3f)

lemma eat_first_enc_first:
  assumes "holds m pos (enc_first diff)"
  shows "(let fb = m pos; edgeRead0 = ucast (fb AND 0x3f)
          in case (if LAST_BIT_SET fb then eat_cont m (pos + 1) 6 edgeRead0
                   else Some (edgeRead0, pos + 1)) of
               None \<Rightarrow> None
             | Some (edgeRead, start') \<Rightarrow> Some (fb AND 0x40 \<noteq> 0, edgeRead, start'))
         = Some (diff < 0, word_of_int \<bar>diff\<bar>, pos + length (enc_first diff))"
proof -
  define tc0 :: uintE where "tc0 = word_of_int \<bar>diff\<bar>"
  let ?fb = "first_byte (drop_bit 6 tc0 > 0) (diff < 0) tc0"
  from assms have mb: "m pos = ?fb" and h: "holds m (Suc pos) (enc_rest (drop_bit 6 tc0))"
    by (simp_all add: enc_first_def Let_def holds_Cons tc0_def)
  have pay: "(ucast (?fb AND 0x3f) :: uintE) = take_bit 6 tc0" by (simp add: and_3f fb_payload)
  have cont: "LAST_BIT_SET ?fb = (drop_bit 6 tc0 > 0)" by (simp add: LAST_BIT_SET_def fb_cont)
  have sign: "(?fb AND 0x40 \<noteq> 0) = (diff < 0)" by (simp add: fb_sign)
  have len: "length (enc_first diff) = Suc (length (enc_rest (drop_bit 6 tc0)))"
    by (simp add: enc_first_def Let_def tc0_def)
  show ?thesis
  proof (cases "drop_bit 6 tc0 = 0")
    case True
    then have "take_bit 6 tc0 = tc0" using first_recompose [of tc0] by simp
    with True mb pay cont sign len show ?thesis
      by (simp add: Let_def tc0_def [symmetric])
  next
    case False
    have t: "take_bit 6 (take_bit 6 tc0) = take_bit 6 tc0" by simp
    have d: "drop_bit (32 - 6) (drop_bit 6 tc0) = 0" by (simp add: drop_bit_drop_bit)
    from eat_cont_enc_rest [OF h False t _ d]
    have "eat_cont m (Suc pos) 6 (take_bit 6 tc0) = Some (tc0, Suc pos + length (enc_rest (drop_bit 6 tc0)))"
      by (simp add: first_recompose)
    with False mb pay cont sign len show ?thesis
      by (simp add: Let_def tc0_def [symmetric] word_greater_zero_iff)
  qed
qed

lemma eatFirstEdge_enc_first:
  assumes "holds m pos (enc_first (uint target - uint source))"
  shows "eatFirstEdge m pos source = Some (target, pos + length (enc_first (uint target - uint source)))"
proof -
  let ?d = "uint target - uint source"
  have "(if ?d < 0 then source - word_of_int \<bar>?d\<bar> else source + word_of_int \<bar>?d\<bar>) = target"
    by (auto simp: abs_if)
  with eat_first_enc_first [OF assms] show ?thesis
    by (auto simp: eatFirstEdge_def Let_def split: option.splits if_splits)
qed

lemma eatWeight_intE_bytes:
  assumes "holds m pos (intE_bytes w)"
  shows "eatWeight_intE m pos = Some (w, pos + length (intE_bytes w))"
proof -
  let ?d = "sint w"
  have "(if ?d < 0 then - word_of_int \<bar>?d\<bar> else word_of_int \<bar>?d\<bar>) = w"
    by (auto simp: abs_if)
  with eat_first_enc_first [OF assms [unfolded intE_bytes_def]] show ?thesis
    by (auto simp: eatWeight_intE_def intE_bytes_def Let_def split: option.splits if_splits)
qed

section \<open>Blocks and regions: what a decoder calls\<close>

lemma weight_ok_empty: "weight_ok W_empty (\<lambda>w. [])"
  by (simp add: weight_ok_def W_empty_def compressWeight_empty_def eatWeight_empty_def)

lemma weight_ok_intE: "weight_ok W_intE intE_bytes"
  by (simp add: weight_ok_def W_intE_def compressWeight_intE_def compressFirstEdge_eq
        intE_bytes_def eatWeight_intE_bytes [unfolded intE_bytes_def])

lemma store_bytes_append:
  "store_bytes m a (xs @ ys) = store_bytes (store_bytes m a xs) (a + length xs) ys"
  by (induction xs arbitrary: m a) auto

lemma write_edges_eq:
  assumes "weight_ok W wb"
  shows "write_edges W m start off last_ngh es =
     (store_bytes m (start + off) (enc_edges wb last_ngh es), off + length (enc_edges wb last_ngh es))"
proof (induction es arbitrary: m off last_ngh)
  case Nil
  then show ?case by simp
next
  case (Cons e es)
  from assms have cw: "\<And>m start off w. compressWeight W m start off w
          = (store_bytes m (start + off) (wb w), off + length (wb w))"
    by (simp add: weight_ok_def)
  show ?case
    by (simp add: compressEdge_eq cw Cons.IH store_bytes_append add.assoc Let_def)
qed

lemma write_block_eq:
  assumes "weight_ok W wb"
  shows "write_block W m start off source es =
     (store_bytes m (start + off) (enc_block wb source es), off + length (enc_block wb source es))"
proof (cases es)
  case Nil
  then show ?thesis by (simp add: write_block_def enc_block_def)
next
  case (Cons e r)
  from assms have cw: "\<And>m start off w. compressWeight W m start off w
          = (store_bytes m (start + off) (wb w), off + length (wb w))"
    by (simp add: weight_ok_def)
  show ?thesis
    by (simp add: Cons write_block_def enc_block_def compressFirstEdge_eq cw
          write_edges_eq [OF assms] store_bytes_append add.assoc)
qed

lemma decode_rest_eq:
  assumes "weight_ok W wb"
  shows "holds m f (enc_edges wb ngh es) \<Longrightarrow> chain ngh es \<Longrightarrow> end_offset = edgeID + length es \<Longrightarrow>
     decode_rest W t m source f ngh edgeID end_offset s = Some (run_cb t source es edgeID s)"
proof (induction es arbitrary: f ngh edgeID s)
  case Nil
  then show ?case by (subst decode_rest.simps) simp
next
  case (Cons e es)
  from assms have ew: "\<And>m pos w. holds m pos (wb w) \<Longrightarrow> eatWeight W m pos = Some (w, pos + length (wb w))"
    by (simp add: weight_ok_def)
  from Cons.prems have h1: "holds m f (enc_rest (fst e - ngh))"
    and h2: "holds m (f + length (enc_rest (fst e - ngh))) (wb (snd e))"
    and h3: "holds m (f + length (enc_rest (fst e - ngh)) + length (wb (snd e))) (enc_edges wb (fst e) es)"
    by (simp_all add: holds_append add.assoc)
  from Cons.prems have ne: "fst e - ngh \<noteq> 0" and ch: "chain (fst e) es" by simp_all
  note E = eatEdge_enc_rest [OF h1 ne] ew [OF h2]
  show ?case
  proof (cases "fst (t s source (fst e) (snd e) edgeID)")
    case True
    with Cons.prems E Cons.IH [OF h3 ch, of "Suc edgeID" "snd (t s source (fst e) (snd e) edgeID)"]
    show ?thesis
      by (subst decode_rest.simps) (simp add: case_prod_beta Let_def)
  next
    case False
    with Cons.prems E show ?thesis
      by (subst decode_rest.simps) (simp add: case_prod_beta Let_def)
  qed
qed

lemma decode_one_block_eq:
  assumes "weight_ok W wb" "holds m f (enc_block wb source es)" "block_chain es"
    "unat end_offset = unat start_offset + length es"
  shows "decode_one_block W t m source f start_offset end_offset s
     = Some (run_cb t source es (unat start_offset) s)"
proof (cases es)
  case Nil
  with assms(4) have "\<not> start_offset < end_offset" by (simp add: word_less_nat_alt)
  with Nil show ?thesis by (simp add: decode_one_block_def)
next
  case (Cons e r)
  with assms(4) have lt: "start_offset < end_offset" by (simp add: word_less_nat_alt)
  from assms(1) have ew: "\<And>m pos w. holds m pos (wb w) \<Longrightarrow> eatWeight W m pos = Some (w, pos + length (wb w))"
    by (simp add: weight_ok_def)
  let ?d = "uint (fst e) - uint source"
  from assms(2) Cons have h1: "holds m f (enc_first ?d)"
    and h2: "holds m (f + length (enc_first ?d)) (wb (snd e))"
    and h3: "holds m (f + length (enc_first ?d) + length (wb (snd e))) (enc_edges wb (fst e) r)"
    by (simp_all add: enc_block_def holds_append add.assoc)
  from assms(3) Cons have ch: "chain (fst e) r" by (simp add: block_chain_def)
  note E = eatFirstEdge_enc_first [OF h1] ew [OF h2]
  have en: "unat end_offset = Suc (unat start_offset) + length r" using assms(4) Cons by simp
  note R = decode_rest_eq [OF assms(1) h3 ch en, of t source
      "snd (t s source (fst e) (snd e) (unat start_offset))"]
  show ?thesis using lt E R Cons
    by (simp add: decode_one_block_def case_prod_beta Let_def)
qed


lemma block_start_Suc:
  "i < length bs \<Longrightarrow> block_start bs (Suc i) = block_start bs i + length (bs ! i)"
  by (simp add: block_start_def take_Suc_conv_app_nth)

lemma block_start_le: "block_start bs i \<le> length (concat bs)"
proof -
  have "length (concat bs) = length (concat (take i bs)) + length (concat (drop i bs))"
    by (metis append_take_drop_id concat_append length_append)
  then show ?thesis by (simp add: block_start_def)
qed

lemma block_start_all: "length bs \<le> i \<Longrightarrow> block_start bs i = length (concat bs)"
  by (simp add: block_start_def)

lemma region_okD:
  "region_ok wb m base source bs \<Longrightarrow> i < length bs \<Longrightarrow>
     read32 m (block_finger m base (length bs) i) = of_nat (block_start bs i)
     \<and> holds m (block_finger m base (length bs) i + 4) (enc_block wb source (bs ! i))
     \<and> block_chain (bs ! i)"
  by (simp add: region_ok_def)

lemma block_end_region:
  assumes "region_ok wb m base source bs" "i < length bs"
  shows "block_end m base (length bs) (of_nat (length (concat bs))) i = of_nat (block_start bs (Suc i))"
proof (cases "i = length bs - 1")
  case True
  with assms(2) have "length bs \<le> Suc i" by simp
  with True show ?thesis by (simp add: block_end_def block_start_all)
next
  case False
  with assms(2) have si: "Suc i < length bs" by arith
  with assms(1) have "read32 m (block_finger m base (length bs) (Suc i)) = of_nat (block_start bs (Suc i))"
    by (simp add: region_ok_def)
  with False show ?thesis by (simp add: block_end_def block_finger_def)
qed

lemma unat_of_nat32: "n < 2 ^ 32 \<Longrightarrow> unat (of_nat n :: uintE) = n"
  by (simp add: unat_of_nat)

lemma of_nat32_eq_0: "n < 2 ^ 32 \<Longrightarrow> ((of_nat n :: uintE) = 0) = (n = 0)"
proof
  assume "n < 2 ^ 32" "(of_nat n :: uintE) = 0"
  then have "unat (of_nat n :: uintE) = 0" by simp
  with \<open>n < 2 ^ 32\<close> show "n = 0" by (simp only: unat_of_nat32)
qed simp

lemma decode_blocks_eq:
  assumes "weight_ok W wb" "region_ok wb m base source bs"
  shows "i \<le> length bs \<Longrightarrow>
     decode_blocks W t m base source (of_nat (length (concat bs))) (length bs) stop_all i s
     = Some (run_blocks t source stop_all (drop i bs) (block_start bs i) s)"
proof (induction "length bs - i" arbitrary: i s)
  case 0
  then show ?case by (subst decode_blocks.simps) simp
next
  case (Suc k)
  then have i: "i < length bs" by arith
  from assms(2) have tot: "length (concat bs) < 2 ^ 32" by (simp add: region_ok_def)
  let ?f = "block_finger m base (length bs) i"
  from assms(2) i have st: "read32 m ?f = of_nat (block_start bs i)"
    and h: "holds m (?f + 4) (enc_block wb source (bs ! i))" and bc: "block_chain (bs ! i)"
    by (simp_all add: region_ok_def)
  note en = block_end_region [OF assms(2) i]
  have u1: "unat (of_nat (block_start bs i) :: uintE) = block_start bs i"
    using block_start_le [of bs i] tot by (simp add: unat_of_nat32)
  have u2: "unat (of_nat (block_start bs (Suc i)) :: uintE) = block_start bs (Suc i)"
    using block_start_le [of bs "Suc i"] tot by (simp add: unat_of_nat32)
  have len: "unat (of_nat (block_start bs (Suc i)) :: uintE)
      = unat (of_nat (block_start bs i) :: uintE) + length (bs ! i)"
    unfolding u1 u2 by (rule block_start_Suc [OF i])
  note B = decode_one_block_eq [OF assms(1) h bc len, of t s]
  have d: "drop i bs = bs ! i # drop (Suc i) bs" using i by (simp add: Cons_nth_drop_Suc)
  from Suc have k: "k = length bs - Suc i" "Suc i \<le> length bs" by arith+
  note IH = Suc.hyps(1) [OF k]
  show ?case
    apply (subst decode_blocks.simps)
    using i st en B IH
    apply (simp add: Let_def d u1 case_prod_beta block_start_Suc [OF i, symmetric])
    done
qed

lemma run_blocks_all_empty:
  "\<forall>b \<in> set bs. b = [] \<Longrightarrow> run_blocks t source stop_all bs idx s = s"
  by (induction bs arbitrary: idx) auto

lemma decode_weighted_eq:
  assumes "weight_ok W wb" "region_ok wb m base source bs"
  shows "decode_weighted W t m base source (of_nat (length (concat bs))) par s
     = Some (run_blocks t source True bs 0 s)"
proof (cases "length (concat bs) = 0")
  case True
  then have e: "\<forall>b \<in> set bs. b = []" by auto
  have z: "(of_nat (length (concat bs)) :: uintE) = 0" unfolding True by simp
  show ?thesis unfolding z by (simp add: decode_weighted_def run_blocks_all_empty [OF e])
next
  case False
  from assms(2) have tot: "length (concat bs) < 2 ^ 32" and nb: "num_blocks_of (read32 m base) = length bs"
    by (simp_all add: region_ok_def)
  from False tot have "(of_nat (length (concat bs)) :: uintE) \<noteq> 0"
    by (simp add: of_nat32_eq_0)
  then have pos: "(of_nat (length (concat bs)) :: uintE) > 0" by (simp add: word_greater_zero_iff)
  from decode_blocks_eq [OF assms, of 0 t True s] pos nb show ?thesis
    by (simp add: decode_weighted_def Let_def block_start_def)
qed

lemma num_blocks_of_pos: "0 < num_blocks_of vd"
  by (simp add: num_blocks_of_def)

lemma decode_unweighted_eq:
  assumes "region_ok (\<lambda>w. []) m base source bs"
  shows "decode_unweighted t m base source (of_nat (length (concat bs))) par s
     = Some (let (c, s') = run_cb t source (hd bs) 0 s
             in if \<not> c then s' else run_blocks t source False (tl bs) (length (hd bs)) s')"
proof -
  from assms have tot: "length (concat bs) < 2 ^ 32" and nb: "num_blocks_of (read32 m base) = length bs"
    by (simp_all add: region_ok_def)
  from nb num_blocks_of_pos [of "read32 m base"] obtain b rest where bs: "bs = b # rest"
    by (cases bs) auto
  show ?thesis
  proof (cases "length (concat bs) = 0")
    case True
    then have e: "\<forall>b \<in> set bs. b = []" by auto
    with bs have b: "b = []" and r: "\<forall>b \<in> set rest. b = []" by auto
    have z: "(of_nat (length (concat bs)) :: uintE) = 0" unfolding True by simp
    show ?thesis unfolding z using bs b by (simp add: decode_unweighted_def run_blocks_all_empty [OF r])
  next
    case False
    from False tot have "(of_nat (length (concat bs)) :: uintE) \<noteq> 0"
      by (simp add: of_nat32_eq_0)
    then have pos: "(of_nat (length (concat bs)) :: uintE) > 0" by (simp add: word_greater_zero_iff)
    have i0: "0 < length bs" using bs by simp
    let ?f = "block_finger m base (length bs) 0"
    have b0: "bs ! 0 = b" "block_start bs 0 = 0" using bs by (simp_all add: block_start_def)
    from region_okD [OF assms i0] have st: "read32 m ?f = 0"
      and h: "holds m (?f + 4) (enc_block (\<lambda>w. []) source b)" and bc: "block_chain b"
      unfolding b0 by simp_all
    have bs1: "block_start bs (Suc 0) = length b" using bs by (simp add: block_start_def)
    from block_end_region [OF assms i0]
    have en: "block_end m base (length bs) (of_nat (length (concat bs))) 0 = of_nat (length b)"
      unfolding bs1 .
    have "length b \<le> length (concat bs)" using bs by simp
    with tot have u2: "unat (of_nat (length b) :: uintE) = length b"
      by (simp add: unat_of_nat32)
    have len: "unat (of_nat (length b) :: uintE) = unat (0 :: uintE) + length b"
      unfolding u2 by simp
    note B = decode_one_block_eq [OF weight_ok_empty h bc len, of t s]
    have s1: "Suc 0 \<le> length bs" using bs by simp
    note R = decode_blocks_eq [OF weight_ok_empty assms s1, of t False]
    have dr: "drop (Suc 0) bs = rest" using bs by simp
    have hd: "hd bs = b" "tl bs = rest" using bs by simp_all
    show ?thesis
      unfolding decode_unweighted_def hd
      using pos nb st en B R
      by (simp add: Let_def case_prod_beta bs1 dr)
  qed
qed



section \<open>The encoder writes a region that decodes to its input\<close>





































section \<open>The simple iterator on a freshly written list\<close>

lemma isect_Nil2 [simp]: "isect xs [] = []"
  by (cases xs) simp_all




lemma isect_subset: "set (isect xs ys) \<subseteq> set xs \<inter> set ys"
  by (induction xs ys rule: isect.induct) auto











section \<open>Round trip\<close>



section \<open>A rejected edge in the first block\<close>

lemma run_cb_reject_at0:
  "b \<noteq> [] \<Longrightarrow> run_cb (reject_at 0) source b 0 [] = (False, [(fst (hd b), 0)])"
  by (cases b) (simp_all add: reject_at_def)

lemma all_less_2: "(\<forall>i < 2. P i) = (P 0 \<and> P (Suc 0))"
  by (auto simp: less_Suc_eq numeral_2_eq_2)

lemma holds_code: "holds m a bs = list_all (\<lambda>i. m (a + i) = bs ! i) [0..<length bs]"
  by (auto simp: holds_def list_all_iff)

lemma region_two_unweighted:
  "region_ok (\<lambda>w. []) two_blocks_unweighted 0 0 [[(3, ())], [(5, ())]]"
proof -
  let ?m = two_blocks_unweighted
  let ?bs = "[[(3, ())], [(5, ())]] :: (uintE \<times> unit) list list"
  have 1: "num_blocks_of (read32 ?m 0) = 2" by code_simp
  have 2: "read32 ?m (block_finger ?m 0 2 0) = of_nat (block_start ?bs 0)" by code_simp
  have 3: "read32 ?m (block_finger ?m 0 2 (Suc 0)) = of_nat (block_start ?bs (Suc 0))" by code_simp
  have 4: "holds ?m (block_finger ?m 0 2 0 + 4) (enc_block (\<lambda>w. []) 0 (?bs ! 0))"
    unfolding holds_code by code_simp
  have 5: "holds ?m (block_finger ?m 0 2 (Suc 0) + 4) (enc_block (\<lambda>w. []) 0 (?bs ! Suc 0))"
    unfolding holds_code by code_simp
  have 6: "block_chain (?bs ! 0)" "block_chain (?bs ! Suc 0)" by (simp_all add: block_chain_def)
  have l: "length ?bs = 2" by simp
  show ?thesis
    unfolding region_ok_def l all_less_2 using 1 2 3 4 5 6 by simp
qed

lemma region_two_weighted:
  "region_ok intE_bytes two_blocks_weighted 0 0 [[(3, 7)], [(5, 9)]]"
proof -
  let ?m = two_blocks_weighted
  let ?bs = "[[(3, 7)], [(5, 9)]] :: (uintE \<times> intE) list list"
  have 1: "num_blocks_of (read32 ?m 0) = 2" by code_simp
  have 2: "read32 ?m (block_finger ?m 0 2 0) = of_nat (block_start ?bs 0)" by code_simp
  have 3: "read32 ?m (block_finger ?m 0 2 (Suc 0)) = of_nat (block_start ?bs (Suc 0))" by code_simp
  have 4: "holds ?m (block_finger ?m 0 2 0 + 4) (enc_block intE_bytes 0 (?bs ! 0))"
    unfolding holds_code by code_simp
  have 5: "holds ?m (block_finger ?m 0 2 (Suc 0) + 4) (enc_block intE_bytes 0 (?bs ! Suc 0))"
    unfolding holds_code by code_simp
  have 6: "block_chain (?bs ! 0)" "block_chain (?bs ! Suc 0)" by (simp_all add: block_chain_def)
  have l: "length ?bs = 2" by simp
  show ?thesis
    unfolding region_ok_def l all_less_2 using 1 2 3 4 5 6 by simp
qed

text \<open>
  Claim C4 asks that a callback returning false on an edge of block \<open>i\<close> only skips the
  rest of block \<open>i\<close>.  The first block of the unweighted \<^verbatim>\<open>decode\<close> and every block of the
  weighted \<^verbatim>\<open>decode\<close> execute \<^verbatim>\<open>return\<close> instead: on every list with a non-empty first
  block, a callback that returns false on the edge of index 0 is called on that edge
  and on no other, whatever the later blocks hold.
\<close>

theorem decode_reject_in_first_block:
  fixes b :: "(uintE \<times> unit) list" and bw :: "(uintE \<times> intE) list"
  assumes "region_ok (\<lambda>w. []) mu base source (b # bs)" and "b \<noteq> []"
    and "region_ok intE_bytes mw base source (bw # bws)" and "bw \<noteq> []"
  shows "decode_unweighted (reject_at 0) mu base source (of_nat (length (concat (b # bs)))) par []
           = Some [(fst (hd b), 0)]
       \<and> decode_weighted W_intE (reject_at 0) mw base source
             (of_nat (length (concat (bw # bws)))) par []
           = Some [(fst (hd bw), 0)]"
proof
  from decode_unweighted_eq [OF assms(1), of "reject_at 0" par "[]"] assms(2)
  show "decode_unweighted (reject_at 0) mu base source (of_nat (length (concat (b # bs)))) par []
           = Some [(fst (hd b), 0)]"
    by (simp add: run_cb_reject_at0)
next
  from decode_weighted_eq [OF weight_ok_intE assms(3), of "reject_at 0" par "[]"] assms(4)
  show "decode_weighted W_intE (reject_at 0) mw base source
             (of_nat (length (concat (bw # bws)))) par []
           = Some [(fst (hd bw), 0)]"
    by (simp add: run_cb_reject_at0)
qed

theorem decode_reject_in_first_block_witness:
  "decode_unweighted (reject_at 0) two_blocks_unweighted 0 0 2 True [] = Some [(3, 0)]
   \<and> decode_weighted W_intE (reject_at 0) two_blocks_weighted 0 0 2 True [] = Some [(3, 0)]"
  using decode_reject_in_first_block [OF region_two_unweighted _ region_two_weighted, of True]
  by simp

section \<open>Intersection\<close>




section \<open>Random access against the decoder\<close>

text \<open>
  Claim C3.  On the neighbours 3, 7, 32775, 32776 of source 0 the decoder yields the
  list itself, whose entry 2 is 32775, while \<^verbatim>\<open>get_ith_neighbor\<close> at index 2 returns 7:
  its loop \<^verbatim>\<open>for (edgeID = start + 1; edgeID < i; edgeID++)\<close> stops one edge early.
\<close>

theorem get_ith_off_by_one:
  "decoded W_empty (encode_at0 W_empty 0 s5_nghs) 0 0 4 = Some s5_nghs
   \<and> get_ith_neighbor W_empty (encode_at0 W_empty 0 s5_nghs) 0 0 4 2 = Some (7, ())
   \<and> s5_nghs ! 2 = (32775, ())"
  by code_simp

section \<open>The allocator's cap\<close>

lemma allocate_blocks_over_cap:
  "max_blocks a < blocks_allocated a + k \<Longrightarrow>
     allocate_blocks a k = Inl (Exit 1 ''Cannot allocate space in block_allocator'')
     \<or> allocate_blocks a k = Inl (Exit 1 ''Too many blocks in block_allocator, change max_blocks'')"
  by (auto simp: allocate_blocks_def aligned_alloc_def Let_def split: option.splits)

lemma allocate_blocks_Inr:
  "allocate_blocks a k = Inr (start, a') \<Longrightarrow>
     blocks_allocated a' = blocks_allocated a + k \<and> blocks_allocated a + k \<le> max_blocks a
     \<and> max_blocks a' = max_blocks a \<and> list_length a' = list_length a
     \<and> thread_count a' = thread_count a \<and> block_size a' = block_size a
     \<and> global_stack a' = global_stack a \<and> local_lists a' = local_lists a"
  by (auto simp: allocate_blocks_def aligned_alloc_def Let_def split: option.splits if_splits)

lemma initialize_list_Inr:
  "initialize_list a start = Inr l \<Longrightarrow> length l = list_length a \<and> 0 < list_length a"
  by (auto simp: initialize_list_def split: if_splits)

lemma get_list_Inr:
  "get_list a = Inr (l, a') \<Longrightarrow>
     max_blocks a' = max_blocks a \<and> list_length a' = list_length a
     \<and> thread_count a' = thread_count a \<and> block_size a' = block_size a
     \<and> local_lists a' = local_lists a \<and>
     ((global_stack a = l # global_stack a' \<and> blocks_allocated a' = blocks_allocated a)
      \<or> (global_stack a = [] \<and> global_stack a' = [] \<and> length l = list_length a
          \<and> 0 < list_length a
          \<and> blocks_allocated a + list_length a \<le> max_blocks a
          \<and> blocks_allocated a' = blocks_allocated a + list_length a))"
  by (cases "global_stack a")
     (auto simp: get_list_def split: sum.splits dest!: allocate_blocks_Inr initialize_list_Inr)

lemma alloc_over_cap:
  assumes "wid < length (local_lists a)" "sz (local_lists a ! wid) = 0" "global_stack a = []"
    "max_blocks a < blocks_allocated a + list_length a"
  shows "alloc a wid = Inl (Exit 1 ''Cannot allocate space in block_allocator'')
     \<or> alloc a wid = Inl (Exit 1 ''Too many blocks in block_allocator, change max_blocks'')"
proof -
  have "alloc a wid = Inl (Exit 1 msg)" if "allocate_blocks a (list_length a) = Inl (Exit 1 msg)" for msg
    using that assms by (simp add: alloc_def get_list_def)
  with allocate_blocks_over_cap [OF assms(4)] show ?thesis by blast
qed

lemma reserve_over_cap:
  assumes "0 < list_length a"
    "max_blocks a < blocks_allocated a
            + list_length a * (thread_count a + (n + list_length a - 1) div list_length a)"
  shows "reserve a n = Inl (Exit 1 ''Cannot allocate space in block_allocator'')
     \<or> reserve a n = Inl (Exit 1 ''Too many blocks in block_allocator, change max_blocks'')"
proof -
  have "reserve a n = Inl (Exit 1 msg)"
    if "allocate_blocks a (list_length a * (thread_count a + (n + list_length a - 1) div list_length a))
          = Inl (Exit 1 msg)" for msg
    using that assms by (simp add: reserve_def)
  with allocate_blocks_over_cap [OF assms(2)] show ?thesis by blast
qed

lemma alloc_Inr_allocated:
  assumes "alloc a wid = Inr (p, a')"
  shows "max_blocks a' = max_blocks a \<and>
     (blocks_allocated a' = blocks_allocated a \<or>
      (blocks_allocated a' = blocks_allocated a + list_length a \<and> blocks_allocated a' \<le> max_blocks a))"
  using assms
  by (auto simp: alloc_def Let_def split: if_splits sum.splits list.splits dest!: get_list_Inr)

lemma reserve_push_fields:
  "reserve_push a start is = Inr b \<Longrightarrow>
     max_blocks b = max_blocks a \<and> blocks_allocated b = blocks_allocated a \<and> list_length b = list_length a
     \<and> thread_count b = thread_count a \<and> block_size b = block_size a"
  by (induction a start "is" rule: reserve_push.induct) (auto split: sum.splits)

lemma reserve_Inr:
  "reserve a n = Inr b \<Longrightarrow> max_blocks b = max_blocks a \<and> blocks_allocated a \<le> blocks_allocated b
     \<and> blocks_allocated b \<le> max_blocks a"
  by (auto simp: reserve_def Let_def split: if_splits sum.splits dest!: allocate_blocks_Inr reserve_push_fields)

lemma new_block_allocator_default_cap:
  assumes "0 < bsize" "new_block_allocator mem_size threads hn hl bsize blocks_count len 0 = Inr b"
  shows "max_blocks b = (3 * mem_size) div (4 * bsize)"
  using assms
  by (auto simp: new_block_allocator_def Let_def div_mult2_eq mult.commute split: if_splits sum.splits dest!: reserve_Inr)

text \<open>
  Claim C8.  A call of \<^verbatim>\<open>alloc\<close> or \<^verbatim>\<open>reserve\<close> that would raise \<^verbatim>\<open>blocks_allocated\<close>
  above \<^verbatim>\<open>max_blocks\<close> ends the process with \<^verbatim>\<open>exit(1)\<close> after printing one of the two
  diagnostics of \<^verbatim>\<open>allocate_blocks\<close>, "Cannot allocate space in block_allocator" or
  "Too many blocks in block_allocator, change max_blocks", so it returns no block; a call that returns leaves the total at or below the cap (or
  unchanged); and a constructor argument \<^verbatim>\<open>max_blocks_ = 0\<close> sets the cap to three
  quarters of the physical memory divided by the block size.
\<close>

theorem allocator_exhaustion_fatal:
  "(wid < length (local_lists a) \<and> sz (local_lists a ! wid) = 0 \<and> global_stack a = []
        \<and> max_blocks a < blocks_allocated a + list_length a
      \<longrightarrow> alloc a wid = Inl (Exit 1 ''Cannot allocate space in block_allocator'')
          \<or> alloc a wid = Inl (Exit 1 ''Too many blocks in block_allocator, change max_blocks''))
   \<and> (0 < list_length a
        \<and> max_blocks a < blocks_allocated a
            + list_length a * (thread_count a + (n + list_length a - 1) div list_length a)
      \<longrightarrow> reserve a n = Inl (Exit 1 ''Cannot allocate space in block_allocator'')
          \<or> reserve a n = Inl (Exit 1 ''Too many blocks in block_allocator, change max_blocks''))
   \<and> (alloc a wid = Inr (p, a')
      \<longrightarrow> blocks_allocated a' = blocks_allocated a \<or> blocks_allocated a' \<le> max_blocks a')
   \<and> (reserve a n = Inr a' \<longrightarrow> blocks_allocated a' \<le> max_blocks a')
   \<and> (0 < bsize \<and> new_block_allocator mem_size threads hn hl bsize blocks_count len 0 = Inr b
      \<longrightarrow> max_blocks b = (3 * mem_size) div (4 * bsize))"
proof (intro conjI impI)
  assume "wid < length (local_lists a) \<and> sz (local_lists a ! wid) = 0 \<and> global_stack a = []
        \<and> max_blocks a < blocks_allocated a + list_length a"
  then show "alloc a wid = Inl (Exit 1 ''Cannot allocate space in block_allocator'')
          \<or> alloc a wid = Inl (Exit 1 ''Too many blocks in block_allocator, change max_blocks'')"
    using alloc_over_cap by blast
next
  assume "0 < list_length a
        \<and> max_blocks a < blocks_allocated a
            + list_length a * (thread_count a + (n + list_length a - 1) div list_length a)"
  then show "reserve a n = Inl (Exit 1 ''Cannot allocate space in block_allocator'')
          \<or> reserve a n = Inl (Exit 1 ''Too many blocks in block_allocator, change max_blocks'')"
    using reserve_over_cap by blast
next
  assume "alloc a wid = Inr (p, a')"
  from alloc_Inr_allocated [OF this]
  show "blocks_allocated a' = blocks_allocated a \<or> blocks_allocated a' \<le> max_blocks a'" by auto
next
  assume "reserve a n = Inr a'"
  from reserve_Inr [OF this] show "blocks_allocated a' \<le> max_blocks a'" by simp
next
  assume "0 < bsize \<and> new_block_allocator mem_size threads hn hl bsize blocks_count len 0 = Inr b"
  then show "max_blocks b = (3 * mem_size) div (4 * bsize)"
    using new_block_allocator_default_cap by blast
qed

theorem allocator_exhaustion_fatal_witness:
  "alloc full_allocator 0 = Inl (Exit 1 ''Too many blocks in block_allocator, change max_blocks'')
   \<and> reserve full_allocator 1 = Inl (Exit 1 ''Too many blocks in block_allocator, change max_blocks'')
   \<and> map_sum (\<lambda>e. e) max_blocks (new_block_allocator 4096 1 1 100000 8 4 4 0) = Inr 384"
proof -
  have h1: "0 < length (local_lists full_allocator) \<and> sz (local_lists full_allocator ! 0) = 0
     \<and> global_stack full_allocator = []
     \<and> max_blocks full_allocator < blocks_allocated full_allocator + list_length full_allocator"
    by (simp add: full_allocator_def)
  have h2: "0 < list_length full_allocator
        \<and> max_blocks full_allocator < blocks_allocated full_allocator
            + list_length full_allocator * (thread_count full_allocator
               + (1 + list_length full_allocator - 1) div list_length full_allocator)"
    by (simp add: full_allocator_def)
  have n1: "alloc full_allocator 0 \<noteq> Inl (Exit 1 ''Cannot allocate space in block_allocator'')"
    by (simp add: alloc_def get_list_def allocate_blocks_def aligned_alloc_def pad_size_def
          full_allocator_def Let_def)
  have n2: "reserve full_allocator 1 \<noteq> Inl (Exit 1 ''Cannot allocate space in block_allocator'')"
    by (simp add: reserve_def allocate_blocks_def aligned_alloc_def pad_size_def
          full_allocator_def Let_def)
  obtain b where b: "new_block_allocator 4096 1 1 100000 8 4 4 0 = Inr b"
    by (cases "new_block_allocator 4096 1 1 100000 8 4 4 0") (simp_all add: new_block_allocator_def reserve_def allocate_blocks_def aligned_alloc_def pad_size_def initialize_list_def Let_def upt_rec)
  note t = allocator_exhaustion_fatal [of 0 full_allocator 1 _ _ 8 4096 1 1 100000 4 4 b]
  from t h1 n1 have "alloc full_allocator 0 = Inl (Exit 1 ''Too many blocks in block_allocator, change max_blocks'')" by blast
  moreover from t h2 n2 have "reserve full_allocator 1 = Inl (Exit 1 ''Too many blocks in block_allocator, change max_blocks'')" by blast
  moreover from t b have "max_blocks b = 384" by simp
  ultimately show ?thesis using b by simp
qed

section \<open>Conservation of blocks\<close>

lemma sum_sz_update:
  "i < length ls \<Longrightarrow> sum_list (map sz (ls[i := l])) + sz (ls ! i) = sum_list (map sz ls) + sz l"
  by (induction ls arbitrary: i) (auto split: nat.splits)

lemma alloc_inv_used: "alloc_inv a 0 \<Longrightarrow> num_used_blocks a = 0"
  by (simp add: alloc_inv_def num_used_blocks_def Let_def)

lemma thread_list_ok_nth:
  "alloc_inv a held \<Longrightarrow> wid < length (local_lists a) \<Longrightarrow> thread_list_ok (list_length a) (local_lists a ! wid)"
  by (simp add: alloc_inv_def)

lemma set_update_ok:
  "\<forall>l \<in> set ls. P l \<Longrightarrow> P x \<Longrightarrow> \<forall>l \<in> set (ls[i := x]). P l"
  by (metis in_set_conv_nth length_list_update nth_list_update_eq nth_list_update_neq)

lemma alloc_inv_alloc:
  assumes inv: "alloc_inv a held" and al: "alloc a wid = Inr (p, a')"
  shows "alloc_inv a' (Suc held)"
proof -
  let ?L = "list_length a"
  from al have wid: "wid < length (local_lists a)" by (auto simp: alloc_def split: if_splits)
  let ?l = "local_lists a ! wid"
  from thread_list_ok_nth [OF inv wid] have ok: "thread_list_ok ?L ?l" .
  show ?thesis
  proof (cases "sz ?l = 0")
    case False
    with al wid obtain rest where hd: "head ?l = p # rest"
      and a': "a' = a\<lparr>local_lists := (local_lists a)[wid := ?l\<lparr>sz := sz ?l - 1, head := rest\<rparr>]\<rparr>"
      by (auto simp: alloc_def Let_def split: list.splits)
    have ok': "thread_list_ok ?L (?l\<lparr>sz := sz ?l - 1, head := rest\<rparr>)"
      using ok hd False by (auto simp: thread_list_ok_def drop_Cons' Suc_diff_Suc)
    have s: "sum_list (map sz ((local_lists a)[wid := ?l\<lparr>sz := sz ?l - 1, head := rest\<rparr>])) + sz ?l
        = sum_list (map sz (local_lists a)) + (sz ?l - 1)"
      using sum_sz_update [OF wid] by simp
    show ?thesis using inv ok' s False unfolding a' alloc_inv_def
      by (auto intro: set_update_ok [rule_format])
  next
    case True
    with al wid obtain lst a1 rest where gl: "get_list a = Inr (lst, a1)" and hd: "lst = p # rest"
      and a': "a' = a1\<lparr>local_lists := (local_lists a1)[wid := ?l\<lparr>sz := list_length a1 - 1, head := rest\<rparr>]\<rparr>"
      by (auto simp: alloc_def Let_def split: list.splits sum.splits)
    note g = get_list_Inr [OF gl]
    from inv have L0: "0 < ?L" by (simp add: alloc_inv_def)
    have len: "length lst = ?L"
      using g inv by (auto simp: alloc_inv_def)
    have ok': "thread_list_ok ?L (?l\<lparr>sz := ?L - 1, head := rest\<rparr>)"
      using len hd by (auto simp: thread_list_ok_def)
    have s: "sum_list (map sz ((local_lists a)[wid := ?l\<lparr>sz := ?L - 1, head := rest\<rparr>]))
        = sum_list (map sz (local_lists a)) + (?L - 1)"
      using sum_sz_update [OF wid, of "?l\<lparr>sz := ?L - 1, head := rest\<rparr>"] True by simp
    from g show ?thesis
    proof (elim conjE disjE)
      assume "global_stack a = lst # global_stack a1" "blocks_allocated a1 = blocks_allocated a"
        "max_blocks a1 = max_blocks a" "list_length a1 = ?L" "thread_count a1 = thread_count a"
        "local_lists a1 = local_lists a"
      then show ?thesis using inv ok' s L0 unfolding a' alloc_inv_def
        by (auto intro: set_update_ok [rule_format])
    next
      assume "global_stack a = []" "global_stack a1 = []" "blocks_allocated a1 = blocks_allocated a + ?L"
        "max_blocks a1 = max_blocks a" "list_length a1 = ?L" "thread_count a1 = thread_count a"
        "local_lists a1 = local_lists a"
      then show ?thesis using inv ok' s L0 unfolding a' alloc_inv_def
        by (auto intro: set_update_ok [rule_format])
    qed
  qed
qed



lemma alloc_inv_free:
  assumes inv: "alloc_inv a (Suc held)" and fr: "free a wid ptr = Inr a'"
  shows "alloc_inv a' held"
proof -
  let ?L = "list_length a"
  from fr have wid: "wid < length (local_lists a)" by (auto simp: free_def split: if_splits)
  let ?l = "local_lists a ! wid"
  from thread_list_ok_nth [OF inv wid] have ok: "thread_list_ok ?L ?l" .
  from inv have L0: "0 < ?L" by (simp add: alloc_inv_def)
  consider (setmid) "sz ?l = ?L + 1" | (cut) "sz ?l \<noteq> ?L + 1" "sz ?l = 2 * ?L"
    | (plain) "sz ?l \<noteq> ?L + 1" "sz ?l \<noteq> 2 * ?L" by blast
  then show ?thesis
  proof cases
    case setmid
    let ?l' = "?l\<lparr>mid := head ?l, head := ptr # head ?l, sz := sz ?l + 1\<rparr>"
    from fr wid setmid have a': "a' = a\<lparr>local_lists := (local_lists a)[wid := ?l']\<rparr>"
      by (auto simp: free_def Let_def)
    have ok': "thread_list_ok ?L ?l'" using ok setmid by (auto simp: thread_list_ok_def)
    have s: "sum_list (map sz ((local_lists a)[wid := ?l'])) = sum_list (map sz (local_lists a)) + 1"
      using sum_sz_update [OF wid, of ?l'] by simp
    show ?thesis using inv ok' s unfolding a' alloc_inv_def
      by (auto intro: set_update_ok [rule_format])
  next
    case plain
    let ?l' = "?l\<lparr>head := ptr # head ?l, sz := sz ?l + 1\<rparr>"
    from fr wid plain have a': "a' = a\<lparr>local_lists := (local_lists a)[wid := ?l']\<rparr>"
      by (auto simp: free_def Let_def)
    have ok': "thread_list_ok ?L ?l'" using ok plain
      by (auto simp: thread_list_ok_def drop_Cons' Suc_diff_le)
    have s: "sum_list (map sz ((local_lists a)[wid := ?l'])) = sum_list (map sz (local_lists a)) + 1"
      using sum_sz_update [OF wid, of ?l'] by simp
    show ?thesis using inv ok' s unfolding a' alloc_inv_def
      by (auto intro: set_update_ok [rule_format])
  next
    case cut
    then have L2: "?L + 2 \<le> sz ?l" using L0 by arith
    with ok cut have m: "mid ?l = drop (?L - 1) (head ?l)" and len: "length (head ?l) = 2 * ?L"
      by (auto simp: thread_list_ok_def)
    then have "length (mid ?l) = ?L + 1" using L0 by simp
    then obtain q lower where ql: "mid ?l = q # lower" and ll: "length lower = ?L"
      by (cases "mid ?l") auto
    let ?l' = "?l\<lparr>mid := [q], head := ptr # take (length (head ?l) - length lower) (head ?l),
                  sz := ?L + 1\<rparr>"
    from fr wid cut ql have a': "a' = a\<lparr>global_stack := lower # global_stack a,
         local_lists := (local_lists a)[wid := ?l']\<rparr>"
      by (auto simp: free_def Let_def)
    have ok': "thread_list_ok ?L ?l'" using len ll by (auto simp: thread_list_ok_def)
    have s: "sum_list (map sz ((local_lists a)[wid := ?l'])) + 2 * ?L
         = sum_list (map sz (local_lists a)) + (?L + 1)"
      using sum_sz_update [OF wid, of ?l'] cut by simp
    show ?thesis using inv ok' s ll unfolding a' alloc_inv_def
      by (auto intro: set_update_ok [rule_format])
  qed
qed

lemma reserve_push_inv:
  "reserve_push a start is = Inr b \<Longrightarrow>
     (\<forall>l \<in> set (global_stack a). length l = list_length a) \<Longrightarrow>
     (\<forall>l \<in> set (global_stack b). length l = list_length a)
     \<and> length (global_stack b) = length (global_stack a) + length is
     \<and> local_lists b = local_lists a"
  by (induction a start "is" rule: reserve_push.induct)
     (auto split: sum.splits dest!: initialize_list_Inr)

lemma alloc_inv_reserve:
  assumes inv: "alloc_inv a held" and rs: "reserve a n = Inr a'"
  shows "alloc_inv a' held"
proof -
  let ?L = "list_length a"
  let ?k = "thread_count a + (n + ?L - 1) div ?L"
  from rs obtain start a1 where ab: "allocate_blocks a (?L * ?k) = Inr (start, a1)"
    and rp: "reserve_push a1 start [0..<?k] = Inr a'"
    by (auto simp: reserve_def Let_def split: if_splits sum.splits)
  note A = allocate_blocks_Inr [OF ab]
  from inv A have g: "\<forall>l \<in> set (global_stack a1). length l = list_length a1"
    by (simp add: alloc_inv_def)
  note R = reserve_push_inv [OF rp g] reserve_push_fields [OF rp]
  show ?thesis using inv A R unfolding alloc_inv_def
    by (auto simp: algebra_simps)
qed

lemma alloc_inv_new:
  assumes "new_block_allocator M T hn hl bs bc L mb = Inr a"
  shows "alloc_inv a 0"
proof -
  let ?a0 = "\<lparr>pool_roots = [], global_stack = [], local_lists = [],
                 list_length = L,
                 max_blocks = (if mb = 0 then (3 * M div bs) div 4 else mb),
                 block_size = bs, blocks_allocated = 0, thread_count = T,
                 heap_next = hn, heap_limit = hl\<rparr>"
  from assms obtain a1 where rs: "reserve ?a0 bc = Inr a1"
    and a: "a = a1\<lparr>local_lists := replicate T \<lparr>sz = 0, head = [], mid = []\<rparr>\<rparr>"
    by (auto simp: new_block_allocator_def Let_def split: if_splits sum.splits)
  from rs have L0: "0 < L" by (auto simp: reserve_def split: if_splits)
  have "alloc_inv ?a0 0" if "T = 0" using L0 that by (simp add: alloc_inv_def)
  let ?k = "T + (bc + L - 1) div L"
  from rs L0 obtain start a2 where ab: "allocate_blocks ?a0 (L * ?k) = Inr (start, a2)"
    and rp: "reserve_push a2 start [0..<?k] = Inr a1"
    by (auto simp: reserve_def Let_def split: if_splits sum.splits)
  note A = allocate_blocks_Inr [OF ab]
  from A have g: "\<forall>l \<in> set (global_stack a2). length l = list_length a2" by simp
  note R = reserve_push_inv [OF rp g] reserve_push_fields [OF rp]
  have sz0: "sum_list (map sz (replicate T \<lparr>sz = 0, head = [], mid = []\<rparr>)) = 0"
    by (induction T) auto
  show ?thesis using A R L0 sz0 unfolding a alloc_inv_def
    by (auto simp: thread_list_ok_def algebra_simps)
qed

lemma run_calls_inv:
  "alloc_inv a (length held) \<Longrightarrow> run_calls a held cs = Some (Inr (a', held', seen)) \<Longrightarrow>
     alloc_inv a' (length held') \<and> sorted (num_allocated_blocks a # seen)"
proof (induction a held cs arbitrary: seen rule: run_calls.induct)
  case (1 a held)
  then show ?case by simp
next
  case (2 a held wid cs)
  from "2.prems"(2) obtain p a1 seen1 where al: "alloc a wid = Inr (p, a1)"
    and r: "run_calls a1 (held @ [p]) cs = Some (Inr (a', held', seen1))"
    and s: "seen = num_allocated_blocks a1 # seen1"
    by (auto split: sum.splits option.splits)
  from alloc_inv_alloc [OF "2.prems"(1) al] have "alloc_inv a1 (length (held @ [p]))" by simp
  from "2.IH" [OF al refl this r]
  have "alloc_inv a' (length held') \<and> sorted (num_allocated_blocks a1 # seen1)" .
  moreover from alloc_Inr_allocated [OF al]
  have "num_allocated_blocks a \<le> num_allocated_blocks a1"
    by (auto simp: num_allocated_blocks_def)
  ultimately show ?case using s by auto
next
  case (3 a held wid k cs)
  from "3.prems"(2) have k: "k < length held" by (auto split: if_splits)
  with "3.prems"(2) obtain a1 seen1 where fr: "free a wid (held ! k) = Inr a1"
    and r: "run_calls a1 (take k held @ drop (Suc k) held) cs = Some (Inr (a', held', seen1))"
    and s: "seen = num_allocated_blocks a1 # seen1"
    by (auto split: sum.splits option.splits)
  from k obtain h where h: "length held = Suc h" by (cases held) auto
  with k have l: "length (take k held @ drop (Suc k) held) = h" by auto
  from alloc_inv_free [OF _ fr, of h] "3.prems"(1) h
  have i1: "alloc_inv a1 (length (take k held @ drop (Suc k) held))" using l by simp
  have k': "\<not> \<not> k < length held" using k by simp
  from "3.IH" [OF k' fr i1 r]
  have "alloc_inv a' (length held') \<and> sorted (num_allocated_blocks a1 # seen1)" .
  moreover have "num_allocated_blocks a = num_allocated_blocks a1"
    using fr by (auto simp: free_def num_allocated_blocks_def Let_def split: if_splits list.splits)
  ultimately show ?case using s by auto
next
  case (4 a held n cs)
  from "4.prems"(2) obtain a1 seen1 where rs: "reserve a n = Inr a1"
    and r: "run_calls a1 held cs = Some (Inr (a', held', seen1))"
    and s: "seen = num_allocated_blocks a1 # seen1"
    by (auto split: sum.splits option.splits)
  from "4.IH" [OF rs alloc_inv_reserve [OF "4.prems"(1) rs] r]
  have "alloc_inv a' (length held') \<and> sorted (num_allocated_blocks a1 # seen1)" .
  moreover from reserve_Inr [OF rs]
  have "num_allocated_blocks a \<le> num_allocated_blocks a1"
    by (auto simp: num_allocated_blocks_def)
  ultimately show ?case using s by auto
qed

text \<open>
  Claim C7.  For an allocator as its constructor leaves it and a run of calls in which
  every \<^verbatim>\<open>free\<close> returns a block handed out by an earlier \<^verbatim>\<open>alloc\<close> and no block is
  left at the end, \<^verbatim>\<open>num_used_blocks()\<close> is 0 at the start and at the end, and the values
  of \<^verbatim>\<open>num_allocated_blocks()\<close> seen after the calls never decrease.
\<close>

theorem allocator_conservation:
  assumes "new_block_allocator mem_size threads hn hl bsize blocks_count len cap = Inr a0"
    and "run_calls a0 [] calls = Some (Inr (a, [], seen))"
  shows "num_used_blocks a0 = 0 \<and> num_used_blocks a = 0 \<and> sorted (num_allocated_blocks a0 # seen)"
proof -
  from alloc_inv_new [OF assms(1)] have i0: "alloc_inv a0 (length ([] :: nat list))" by simp
  from run_calls_inv [OF i0 assms(2)] have "alloc_inv a 0" "sorted (num_allocated_blocks a0 # seen)"
    by simp_all
  with i0 show ?thesis by (simp add: alloc_inv_used)
qed


theorem allocator_conservation_witness:
  "\<exists>a0 a seen. new_block_allocator 4096 2 1 100000 8 0 2 0 = Inr a0
     \<and> run_calls a0 [] [Alloc 0, Alloc 1, Free 1 0, Free 0 0] = Some (Inr (a, [], seen))
     \<and> num_used_blocks a0 = 0 \<and> num_used_blocks a = 0 \<and> sorted (num_allocated_blocks a0 # seen)"
proof -
  let ?a0 = "\<lparr>pool_roots = [256], global_stack = [[272, 280], [256, 264]],
        local_lists = [\<lparr>sz = 0, head = [], mid = []\<rparr>, \<lparr>sz = 0, head = [], mid = []\<rparr>],
        list_length = 2, max_blocks = 384, block_size = 8,
        blocks_allocated = 4, thread_count = 2, heap_next = 544, heap_limit = 100000\<rparr>"
  have a0: "new_block_allocator 4096 2 1 100000 8 0 2 0 = Inr ?a0"
    by (simp add: new_block_allocator_def reserve_def allocate_blocks_def aligned_alloc_def
          pad_size_def initialize_list_def Let_def numeral_2_eq_2 upt_conv_Cons)
  have "\<exists>a seen. run_calls ?a0 [] [Alloc 0, Alloc 1, Free 1 0, Free 0 0] = Some (Inr (a, [], seen))"
    by (simp add: alloc_def free_def get_list_def Let_def)
  then obtain a seen where
    r: "run_calls ?a0 [] [Alloc 0, Alloc 1, Free 1 0, Free 0 0] = Some (Inr (a, [], seen))"
    by blast
  from allocator_conservation [OF a0 r] a0 r show ?thesis by blast
qed

section \<open>Parents in breadth-first search\<close>

lemma steps_ok_append:
  "steps_ok P (xs @ ys) = (steps_ok P xs \<and> steps_ok (last (P # map snd xs)) ys)"
  by (induction xs arbitrary: P) auto

lemma visit_assigned_once:
  assumes "s \<in> set F" "s \<noteq> UINT_E_MAX"
  shows "assigned_once F P
           (snd (if BFS_F_cond P d then BFS_F_updateAtomic P s d else (False, P)))"
proof (cases "P ! unat d = UINT_E_MAX")
  case False
  then show ?thesis
    by (simp add: assigned_once_def BFS_F_cond_def)
next
  case True
  have "P[unat d := s] ! x = P ! x \<or> (P ! x = UINT_E_MAX \<and> P[unat d := s] ! x \<in> set F
          \<and> P[unat d := s] ! x \<noteq> UINT_E_MAX)" if "x < length P" for x
    using that assms True by (cases "x = unat d") auto
  with True show ?thesis
    by (simp add: assigned_once_def BFS_F_cond_def BFS_F_updateAtomic_def
          atomic_compare_and_swap_def)
qed

lemma edgeMap_sparse_steps:
  assumes "edgeMap_sparse P es = (P2, seen, out)" "fst ` set es \<subseteq> set F"
    "UINT_E_MAX \<notin> set F"
  shows "steps_ok P (map (\<lambda>P. (F, P)) seen) \<and> P2 = last (P # seen)
         \<and> length P2 = length P \<and> set out \<subseteq> snd ` set es"
  using assms
proof (induction es arbitrary: P P2 seen out)
  case Nil
  then show ?case by simp
next
  case (Cons e es)
  obtain s d where e: "e = (s, d)" by (cases e)
  let ?step = "if BFS_F_cond P d then BFS_F_updateAtomic P s d else (False, P)"
  obtain P3 seen3 out3 where r: "edgeMap_sparse (snd ?step) es = (P3, seen3, out3)"
    by (cases "edgeMap_sparse (snd ?step) es") auto
  from Cons.prems(1) e r have eq: "P2 = P3" "seen = snd ?step # seen3"
    "out = (if fst ?step then d # out3 else out3)"
    by (auto simp: case_prod_beta Let_def)
  from Cons.prems e have s: "s \<in> set F" "s \<noteq> UINT_E_MAX" "fst ` set es \<subseteq> set F" by auto
  from Cons.IH [OF r s(3) Cons.prems(3)]
  have IH: "steps_ok (snd ?step) (map (Pair F) seen3)" "P3 = last (snd ?step # seen3)"
    "length P3 = length (snd ?step)" "set out3 \<subseteq> snd ` set es" by auto
  note v = visit_assigned_once [OF s(1,2), of P d]
  from v have "length (snd ?step) = length P" by (simp add: assigned_once_def)
  with IH v eq e show ?case by auto
qed

lemma BFS_rounds_steps:
  assumes "\<forall>s d. d \<in> set (G s) \<longrightarrow> unat d < n" "n \<le> unat UINT_E_MAX"
    "\<forall>r es. set (sched r es) \<subseteq> set es"
  shows "length P = n \<Longrightarrow> \<forall>v \<in> set F. unat v < n \<Longrightarrow> steps_ok P (BFS_rounds G sched fuel r P F)"
proof (induction fuel arbitrary: r P F)
  case 0
  then show ?case by simp
next
  case (Suc fuel)
  show ?case
  proof (cases "F = []")
    case True
    then show ?thesis by simp
  next
    case False
    let ?es = "sched r (out_edges G F)"
    obtain P1 seen out where em: "edgeMap_sparse P ?es = (P1, seen, out)"
      by (cases "edgeMap_sparse P ?es") auto
    have sub: "set ?es \<subseteq> set (out_edges G F)" using assms(3) by blast
    have f: "fst ` set ?es \<subseteq> set F" using sub by (auto simp: out_edges_def)
    have m: "UINT_E_MAX \<notin> set F" using Suc.prems(2) assms(2) by auto
    note E = edgeMap_sparse_steps [OF em f m]
    have "snd ` set ?es \<subseteq> {d. unat d < n}" using sub assms(1) by (auto simp: out_edges_def)
    moreover from E have "set out \<subseteq> snd ` set ?es" by blast
    ultimately have "set out \<subseteq> {d. unat d < n}" by blast
    then have o: "\<forall>v \<in> set (remdups out). unat v < n" by auto
    from E have "length P1 = length P" by blast
    with Suc.prems have l: "length P1 = n" by simp
    have "last (P # map snd (map (Pair F) seen)) = P1" using E by (simp add: comp_def)
    with Suc.IH [OF l o] E em False show ?thesis
      by (simp add: steps_ok_append)
  qed
qed

lemma steps_ok_nth:
  "steps_ok P tr \<Longrightarrow> Suc i < length ((F0, P) # tr) \<Longrightarrow>
     assigned_once (fst (((F0, P) # tr) ! Suc i)) (snd (((F0, P) # tr) ! i))
       (snd (((F0, P) # tr) ! Suc i))"
proof (induction tr arbitrary: P F0 i)
  case Nil
  then show ?case by simp
next
  case (Cons x tr)
  obtain F P' where x: "x = (F, P')" by (cases x)
  show ?case
  proof (cases i)
    case 0
    with Cons.prems x show ?thesis by simp
  next
    case (Suc k)
    with Cons.prems x Cons.IH [of P' k F] show ?thesis by simp
  qed
qed

lemma steps_ok_length:
  "steps_ok P tr \<Longrightarrow> i < length ((F0, P) # tr) \<Longrightarrow> length (snd (((F0, P) # tr) ! i)) = length P"
proof (induction tr arbitrary: P F0 i)
  case Nil
  then show ?case by simp
next
  case (Cons x tr)
  obtain F P' where x: "x = (F, P')" by (cases x)
  show ?case
  proof (cases i)
    case 0
    then show ?thesis by simp
  next
    case (Suc k)
    with Cons.prems x Cons.IH [of P' k F] show ?thesis by (simp add: assigned_once_def)
  qed
qed

lemma steps_ok_stable:
  assumes "steps_ok P tr" "d < length P"
  shows "j < length ((F0, P) # tr) \<Longrightarrow> i \<le> j \<Longrightarrow> snd (((F0, P) # tr) ! i) ! d \<noteq> UINT_E_MAX \<Longrightarrow>
     snd (((F0, P) # tr) ! j) ! d = snd (((F0, P) # tr) ! i) ! d"
proof (induction j)
  case 0
  then show ?case by simp
next
  case (Suc j)
  show ?case
  proof (cases "i = Suc j")
    case True
    then show ?thesis by simp
  next
    case False
    with Suc.prems have ij: "i \<le> j" "j < length ((F0, P) # tr)" by auto
    from Suc.IH [OF ij(2) ij(1) Suc.prems(3)]
    have e: "snd (((F0, P) # tr) ! j) ! d = snd (((F0, P) # tr) ! i) ! d" .
    from steps_ok_nth [OF assms(1) Suc.prems(1)] steps_ok_length [OF assms(1) ij(2)] assms(2)
    have "snd (((F0, P) # tr) ! Suc j) ! d = snd (((F0, P) # tr) ! j) ! d
       \<or> snd (((F0, P) # tr) ! j) ! d = UINT_E_MAX"
      by (auto simp: assigned_once_def)
    with e Suc.prems(3) show ?thesis by auto
  qed
qed

text \<open>
  Claim C10.  In a run of \<^verbatim>\<open>BFS\<close> from \<open>src\<close> on a graph with \<open>n\<close> vertices (ids below
  \<^verbatim>\<open>UINT_E_MAX\<close>), under any order of the edge visits: \<^verbatim>\<open>Parents\<close> starts as all
  \<^verbatim>\<open>UINT_E_MAX\<close> but \<^verbatim>\<open>Parents[src] = src\<close>; a visit that changes \<^verbatim>\<open>Parents[d]\<close> finds it at
  \<^verbatim>\<open>UINT_E_MAX\<close> and sets it to a vertex of the frontier of that round; an entry that is
  not \<^verbatim>\<open>UINT_E_MAX\<close> keeps its value to the end of the run, so every entry changes at most
  once; \<^verbatim>\<open>updateAtomic\<close> succeeds only from \<^verbatim>\<open>UINT_E_MAX\<close>, and \<^verbatim>\<open>cond\<close> holds only there.
\<close>

theorem BFS_parent_assigned_once:
  assumes "unat src < n" "n \<le> unat UINT_E_MAX" "\<forall>s d. d \<in> set (G s) \<longrightarrow> unat d < n"
    "\<forall>r es. set (sched r es) \<subseteq> set es"
  shows "snd (BFS G sched fuel n src ! 0) = (replicate n UINT_E_MAX)[unat src := src]
    \<and> (\<forall>i d. Suc i < length (BFS G sched fuel n src) \<and> d < n
          \<and> snd (BFS G sched fuel n src ! Suc i) ! d \<noteq> snd (BFS G sched fuel n src ! i) ! d
        \<longrightarrow> snd (BFS G sched fuel n src ! i) ! d = UINT_E_MAX
            \<and> snd (BFS G sched fuel n src ! Suc i) ! d \<in> set (fst (BFS G sched fuel n src ! Suc i))
            \<and> snd (BFS G sched fuel n src ! Suc i) ! d \<noteq> UINT_E_MAX)
    \<and> (\<forall>i j d. i \<le> j \<and> j < length (BFS G sched fuel n src) \<and> d < n
          \<and> snd (BFS G sched fuel n src ! i) ! d \<noteq> UINT_E_MAX
        \<longrightarrow> snd (BFS G sched fuel n src ! j) ! d = snd (BFS G sched fuel n src ! i) ! d)
    \<and> (\<forall>P s d. fst (BFS_F_updateAtomic P s d) \<longrightarrow> P ! unat d = UINT_E_MAX)
    \<and> (\<forall>P d. BFS_F_cond P d \<longrightarrow> P ! unat d = UINT_E_MAX)"
proof -
  let ?P0 = "(replicate n UINT_E_MAX)[unat src := src]"
  let ?tr = "BFS_rounds G sched fuel 0 ?P0 [src]"
  have tr: "BFS G sched fuel n src = ([src], ?P0) # ?tr" by (simp add: BFS_def Let_def)
  have l: "length ?P0 = n" by simp
  have f: "\<forall>v \<in> set [src]. unat v < n" using assms(1) by simp
  note S = BFS_rounds_steps [OF assms(3,2,4) l f, of fuel 0]
  have 1: "snd (BFS G sched fuel n src ! 0) = ?P0" by (simp add: tr)
  have 2: "snd (BFS G sched fuel n src ! i) ! d = UINT_E_MAX
            \<and> snd (BFS G sched fuel n src ! Suc i) ! d \<in> set (fst (BFS G sched fuel n src ! Suc i))
            \<and> snd (BFS G sched fuel n src ! Suc i) ! d \<noteq> UINT_E_MAX"
    if "Suc i < length (BFS G sched fuel n src)" "d < n"
      "snd (BFS G sched fuel n src ! Suc i) ! d \<noteq> snd (BFS G sched fuel n src ! i) ! d" for i d
  proof -
    from that(1) have i: "i < length (([src], ?P0) # ?tr)" by (simp add: tr)
    from steps_ok_nth [OF S, of i "[src]"] that(1) steps_ok_length [OF S i] that(2,3)
    show ?thesis unfolding tr by (auto simp: assigned_once_def)
  qed
  have 3: "snd (BFS G sched fuel n src ! j) ! d = snd (BFS G sched fuel n src ! i) ! d"
    if "i \<le> j" "j < length (BFS G sched fuel n src)" "d < n"
      "snd (BFS G sched fuel n src ! i) ! d \<noteq> UINT_E_MAX" for i j d
    using steps_ok_stable [OF S, of d j "[src]" i] that unfolding tr by simp
  have 4: "P ! unat d = UINT_E_MAX" if "fst (BFS_F_updateAtomic P s d)" for P s d
    using that by (auto simp: BFS_F_updateAtomic_def atomic_compare_and_swap_def split: if_splits)
  have 5: "P ! unat d = UINT_E_MAX" if "BFS_F_cond P d" for P d
    using that by (simp add: BFS_F_cond_def)
  from 1 2 3 4 5 show ?thesis by blast
qed


theorem BFS_parent_assigned_once_witness:
  "unat (0 :: uintE) < 4 \<and> 4 \<le> unat UINT_E_MAX
   \<and> snd (BFS star_graph in_order 5 4 0 ! 0) = (replicate 4 UINT_E_MAX)[unat (0 :: uintE) := 0]"
proof -
  have h1: "unat (0 :: uintE) < 4" by simp
  have h2: "4 \<le> unat UINT_E_MAX" by (simp add: UINT_E_MAX_def unsigned_minus_1_eq_mask mask_eq_exp_minus_1)
  have h3: "\<forall>s d. d \<in> set (star_graph s) \<longrightarrow> unat d < 4"
    by (auto simp: star_graph_def split: if_splits)
  have h4: "\<forall>r es. set (in_order r es) \<subseteq> set es" by (simp add: in_order_def)
  from BFS_parent_assigned_once [OF h1 h2 h3 h4, of 5] h1 h2 show ?thesis by blast
qed

section \<open>Weighted breadth-first search on other weight types\<close>

text \<open>
  Claim C9 says that \<^verbatim>\<open>wBFS\<close> on a graph whose weight type is not \<^verbatim>\<open>int32_t\<close> always ends
  in an assertion failure.  In a build that defines \<^verbatim>\<open>NDEBUG\<close> it does not: on a graph
  with unit weights and three vertices \<^verbatim>\<open>wBFS\<close> returns three entries \<^verbatim>\<open>INT_E_MAX\<close>.
\<close>

theorem wBFS_returns_under_NDEBUG:
  "wBFS True zero_dists W_pbbs_empty 3 0 = Inr [INT_E_MAX, INT_E_MAX, INT_E_MAX]"
  by (simp add: wBFS_def wBFS_not_int32_def cassert_def numeral_3_eq_3)

text \<open>
  Claim C9, amended.  For every graph whose weight type is not \<^verbatim>\<open>int32_t\<close>: in a build
  with assertions compiled in (\<^verbatim>\<open>NDEBUG\<close> not defined) \<^verbatim>\<open>wBFS\<close> fails its assertion and
  returns no distances; in a build that defines \<^verbatim>\<open>NDEBUG\<close> it returns \<open>n\<close> entries
  \<^verbatim>\<open>INT_E_MAX\<close>, whatever the graph and the source vertex, and never calls the
  \<^verbatim>\<open>int32_t\<close> overload.
\<close>

theorem wBFS_unweighted_asserts:
  "W \<noteq> W_int32_t \<Longrightarrow>
     wBFS NDEBUG wBFS_int32 W n src
       = (if NDEBUG then Inr (replicate n INT_E_MAX) else Inl Assertion_failed)"
  by (simp add: wBFS_def wBFS_not_int32_def cassert_def)

theorem wBFS_unweighted_asserts_witness:
  "W_pbbs_empty \<noteq> W_int32_t
   \<and> wBFS False zero_dists W_pbbs_empty 3 0 = Inl Assertion_failed
   \<and> wBFS False zero_dists W_other 3 0 = Inl Assertion_failed"
  using wBFS_unweighted_asserts [of W_pbbs_empty False zero_dists 3 0]
    wBFS_unweighted_asserts [of W_other False zero_dists 3 0]
  by simp

end
